theory Spec2Isabelle
  imports Main "HOL-Library.Product_Lexorder" "HOL-Library.List_Lexorder"
begin

section \<open>Data model\<close>

text \<open>
  A cell is a pair of Python integers \<open>(x, y)\<close>; the body is the list of its cells,
  head first, tail last.
\<close>

type_synonym cell = "int \<times> int"

text \<open>
  \<open>class Direction(Enum)\<close> is declared, with the same four members and values, once in each
  of the modules below. \<open>policy_agent.py\<close> and the test blocks import the class of
  \<open>snake_env.py\<close>; \<open>cost_function.py\<close> builds its table of opposite directions from its own
  class. \<open>Enum\<close> defines \<open>__hash__\<close> (by member name) and no \<open>__eq__\<close>, so members are
  compared by identity and a member of one module's class never equals a member of
  another module's class. A direction value is therefore the pair of the module whose class
  it belongs to and the member's name.
\<close>

datatype py_module =
  snake_env | state_perception | safety_logic | path_planning | cost_function | evaluation_logger

datatype member = UP | DOWN | LEFT | RIGHT

type_synonym Direction = "py_module \<times> member"

text \<open>\<open>d.value\<close>: the unit delta of a member, the same in every module.\<close>

fun member_value :: "member \<Rightarrow> int \<times> int" where
  "member_value UP = (0, -1)"
| "member_value DOWN = (0, 1)"
| "member_value LEFT = (-1, 0)"
| "member_value RIGHT = (1, 0)"

definition dir_value :: "Direction \<Rightarrow> int \<times> int" where
  "dir_value d = member_value (snd d)"

text \<open>\<open>for d in Direction\<close> iterates the members of a module's class in declaration order.\<close>

definition Direction_members :: "py_module \<Rightarrow> Direction list" where
  "Direction_members m = [(m, UP), (m, DOWN), (m, LEFT), (m, RIGHT)]"

definition Direction_values :: "py_module \<Rightarrow> (int \<times> int) list" where
  "Direction_values m = map dir_value (Direction_members m)"

text \<open>
  The board of size \<open>sz\<close>: the cells with \<open>0 \<le> x < sz\<close> and \<open>0 \<le> y < sz\<close>. The source
  writes the test out at each use; the set is used for the termination measures only.
\<close>

definition board :: "int \<Rightarrow> cell set" where
  "board sz = {0..<sz} \<times> {0..<sz}"

definition unvisited :: "int \<Rightarrow> cell set \<Rightarrow> nat" where
  "unvisited sz visited = card (board sz - visited)"

lemma finite_board [simp]: "finite (board sz)"
  by (simp add: board_def)

lemma unvisited_insert:
  assumes "n \<in> board sz" "n \<notin> visited"
  shows "Suc (unvisited sz (insert n visited)) = unvisited sz visited"
proof -
  have eq: "board sz - insert n visited = (board sz - visited) - {n}" by auto
  have mem: "n \<in> board sz - visited" using assms by simp
  have fin: "finite (board sz - visited)" by simp
  from card_Suc_Diff1 [OF fin mem] show ?thesis
    unfolding unvisited_def eq .
qed

section \<open>Grid reachability (state\_perception.py, safety\_logic.py)\<close>

text \<open>
  \<open>find_reachable_areas_bfs\<close> and \<open>has_path_to_target_bfs\<close> are defined with the same text in
  \<open>state_perception.py\<close> and in \<open>safety_logic.py\<close>; \<open>policy_agent.py\<close> imports the first
  copies, \<open>is_future_isolated\<close> calls the second. The first argument \<open>m\<close> of the embedded
  functions names the module of the copy; it decides only whose \<open>Direction\<close> class the loop
  \<open>for dx, dy in [d.value for d in Direction]\<close> enumerates.

  The queue \<open>q\<close> is a \<open>deque\<close> used first-in first-out (\<open>append\<close>, \<open>popleft\<close>): a list
  with the front at the head. \<open>visited\<close> and \<open>obstacles\<close> are Python sets of cells.

  \<open>bfs_visit\<close> is the body of the inner loop for one delta \<open>d\<close>, acting on the queue and the
  visited set; the list \<open>ds\<close> of deltas tried, in order, is a parameter of the outer loop, and
  the source passes \<open>[d.value for d in Direction]\<close>.
\<close>

definition bfs_visit ::
  "int \<Rightarrow> cell set \<Rightarrow> cell \<Rightarrow> int \<times> int \<Rightarrow> cell list \<times> cell set \<Rightarrow> cell list \<times> cell set" where
  "bfs_visit sz obstacles curr_pos d = (\<lambda>(q, visited).
     case curr_pos of (curr_x, curr_y) \<Rightarrow>
     case d of (dx, dy) \<Rightarrow>
       let next_x = curr_x + dx; next_y = curr_y + dy; next_pos = (next_x, next_y)
       in if 0 \<le> next_x \<and> next_x < sz \<and> 0 \<le> next_y \<and> next_y < sz
             \<and> next_pos \<notin> visited \<and> next_pos \<notin> obstacles
          then (q @ [next_pos], insert next_pos visited)
          else (q, visited))"

lemma bfs_visit_measure:
  assumes "bfs_visit sz obstacles curr_pos d (q, visited) = (q', visited')"
  shows "unvisited sz visited' + length q' \<le> unvisited sz visited + length q"
proof -
  obtain cx cy where c: "curr_pos = (cx, cy)" by (cases curr_pos)
  obtain dx dy where d: "d = (dx, dy)" by (cases d)
  let ?n = "(cx + dx, cy + dy)"
  show ?thesis
  proof (cases "?n \<in> board sz \<and> ?n \<notin> visited \<and> ?n \<notin> obstacles")
    case True
    then have eq: "q' = q @ [?n]" "visited' = insert ?n visited"
      using assms c d by (auto simp: bfs_visit_def Let_def board_def)
    from True unvisited_insert [of ?n sz visited] show ?thesis
      unfolding eq by simp
  next
    case False
    then have "q' = q" "visited' = visited"
      using assms c d by (auto simp: bfs_visit_def Let_def board_def)
    then show ?thesis by simp
  qed
qed

lemma bfs_fold_measure:
  "fold (bfs_visit sz obstacles curr_pos) ds (q, visited) = (q', visited') \<Longrightarrow>
   unvisited sz visited' + length q' \<le> unvisited sz visited + length q"
proof (induction ds arbitrary: q visited)
  case Nil
  then show ?case by simp
next
  case (Cons d ds)
  obtain q1 v1 where s: "bfs_visit sz obstacles curr_pos d (q, visited) = (q1, v1)"
    by (cases "bfs_visit sz obstacles curr_pos d (q, visited)")
  from Cons.prems s have "fold (bfs_visit sz obstacles curr_pos) ds (q1, v1) = (q', visited')"
    by simp
  from Cons.IH [OF this] bfs_visit_measure [OF s] show ?case by linarith
qed

text \<open>
  The \<open>while q:\<close> loop of \<open>find_reachable_areas_bfs\<close>. Every pass removes the front of the
  queue, and every cell appended is a cell of the board not yet visited, so the number of
  unvisited board cells plus the queue length decreases.
\<close>

function bfs_loop ::
  "(int \<times> int) list \<Rightarrow> int \<Rightarrow> cell set \<Rightarrow> cell list \<Rightarrow> cell set \<Rightarrow> nat \<Rightarrow> cell list
     \<Rightarrow> nat \<times> cell list" where
  "bfs_loop ds sz obstacles [] visited reachable_count reachable_cells =
     (reachable_count, reachable_cells)"
| "bfs_loop ds sz obstacles (curr_pos # q) visited reachable_count reachable_cells =
     (case fold (bfs_visit sz obstacles curr_pos) ds (q, visited) of (q', visited') \<Rightarrow>
        bfs_loop ds sz obstacles q' visited' (reachable_count + 1) (reachable_cells @ [curr_pos]))"
  by pat_completeness auto
termination
proof (relation "measure (\<lambda>(ds, sz, obstacles, q, visited, n, cells).
         unvisited sz visited + length q)", goal_cases)
  case 1
  show ?case by simp
next
  case (2 ds sz obstacles curr_pos q visited n cells x1 x2)
  from 2(1) have f: "fold (bfs_visit sz obstacles curr_pos) ds (q, visited) = (x1, x2)"
    by simp
  from bfs_fold_measure [OF f] show ?case by simp
qed

definition find_reachable_areas_bfs ::
  "py_module \<Rightarrow> cell \<Rightarrow> int \<Rightarrow> cell list \<Rightarrow> cell \<Rightarrow> nat \<times> cell list" where
  "find_reachable_areas_bfs m start_pos sz snake_body food_pos =
     (let reachable_count = 0;
          reachable_cells = [];
          q = [start_pos];
          visited = {start_pos};
          obstacles = set snake_body;
          obstacles = (if food_pos \<in> obstacles then obstacles - {food_pos} else obstacles)
      in bfs_loop (Direction_values m) sz obstacles q visited reachable_count reachable_cells)"

text \<open>
  \<open>has_path_to_target_bfs\<close>: the queue holds pairs of a cell and the path taken to it; the
  loop returns \<open>True\<close> as soon as the cell taken from the queue is the target, \<open>False\<close> when
  the queue is empty.
\<close>

definition path_visit ::
  "int \<Rightarrow> cell set \<Rightarrow> cell \<Rightarrow> cell list \<Rightarrow> int \<times> int
     \<Rightarrow> (cell \<times> cell list) list \<times> cell set \<Rightarrow> (cell \<times> cell list) list \<times> cell set" where
  "path_visit sz obstacles curr_pos path d = (\<lambda>(q, visited).
     case d of (dx, dy) \<Rightarrow>
       let next_x = fst curr_pos + dx; next_y = snd curr_pos + dy; next_pos = (next_x, next_y)
       in if 0 \<le> next_x \<and> next_x < sz \<and> 0 \<le> next_y \<and> next_y < sz
             \<and> next_pos \<notin> visited \<and> next_pos \<notin> obstacles
          then (q @ [(next_pos, path @ [next_pos])], insert next_pos visited)
          else (q, visited))"

lemma path_visit_measure:
  assumes "path_visit sz obstacles curr_pos path d (q, visited) = (q', visited')"
  shows "unvisited sz visited' + length q' \<le> unvisited sz visited + length q"
proof -
  obtain dx dy where d: "d = (dx, dy)" by (cases d)
  let ?n = "(fst curr_pos + dx, snd curr_pos + dy)"
  show ?thesis
  proof (cases "?n \<in> board sz \<and> ?n \<notin> visited \<and> ?n \<notin> obstacles")
    case True
    then have eq: "q' = q @ [(?n, path @ [?n])]" "visited' = insert ?n visited"
      using assms d by (auto simp: path_visit_def Let_def board_def)
    from True unvisited_insert [of ?n sz visited] show ?thesis
      unfolding eq by simp
  next
    case False
    then have "q' = q" "visited' = visited"
      using assms d by (auto simp: path_visit_def Let_def board_def)
    then show ?thesis by simp
  qed
qed

lemma path_fold_measure:
  "fold (path_visit sz obstacles curr_pos path) ds (q, visited) = (q', visited') \<Longrightarrow>
   unvisited sz visited' + length q' \<le> unvisited sz visited + length q"
proof (induction ds arbitrary: q visited)
  case Nil
  then show ?case by simp
next
  case (Cons d ds)
  obtain q1 v1 where s: "path_visit sz obstacles curr_pos path d (q, visited) = (q1, v1)"
    by (cases "path_visit sz obstacles curr_pos path d (q, visited)")
  from Cons.prems s have "fold (path_visit sz obstacles curr_pos path) ds (q1, v1) = (q', visited')"
    by simp
  from Cons.IH [OF this] path_visit_measure [OF s] show ?case by linarith
qed

function path_loop ::
  "(int \<times> int) list \<Rightarrow> cell \<Rightarrow> int \<Rightarrow> cell set \<Rightarrow> (cell \<times> cell list) list \<Rightarrow> cell set
     \<Rightarrow> bool" where
  "path_loop ds target_pos sz obstacles [] visited = False"
| "path_loop ds target_pos sz obstacles ((curr_pos, path) # q) visited =
     (if curr_pos = target_pos then True
      else
        case fold (path_visit sz obstacles curr_pos path) ds (q, visited) of (q', visited') \<Rightarrow>
          path_loop ds target_pos sz obstacles q' visited')"
  by pat_completeness auto
termination
proof (relation "measure (\<lambda>(ds, target_pos, sz, obstacles, q, visited).
         unvisited sz visited + length q)", goal_cases)
  case 1
  show ?case by simp
next
  case (2 ds target_pos sz obstacles curr_pos path q visited x1 x2)
  from 2(2) have f: "fold (path_visit sz obstacles curr_pos path) ds (q, visited) = (x1, x2)"
    by simp
  from path_fold_measure [OF f] show ?case by simp
qed

definition has_path_to_target_bfs ::
  "py_module \<Rightarrow> cell \<Rightarrow> cell \<Rightarrow> int \<Rightarrow> cell list \<Rightarrow> bool" where
  "has_path_to_target_bfs m start_pos target_pos sz snake_body =
     (let q = [(start_pos, [])];
          visited = {start_pos};
          obstacles = set snake_body;
          obstacles = (if target_pos \<in> obstacles then obstacles - {target_pos} else obstacles);
          obstacles = (if start_pos \<in> obstacles then obstacles - {start_pos} else obstacles)
      in path_loop (Direction_values m) target_pos sz obstacles q visited)"

section \<open>Shortest path search (path\_planning.py)\<close>

text \<open>
  \<open>heuristic\<close>: the Manhattan distance of two cells.
\<close>

type_synonym entry = "int \<times> nat \<times> cell \<times> cell list"

definition heuristic :: "cell \<Rightarrow> cell \<Rightarrow> int" where
  "heuristic a b = \<bar>fst a - fst b\<bar> + \<bar>snd a - snd b\<bar>"

text \<open>
  \<open>open_set\<close> is a list used only through \<open>heapq.heappush\<close> and \<open>heapq.heappop\<close>, so what
  the program observes of it is the multiset of its entries: \<open>heappop\<close> removes and returns
  the least entry in Python's order on tuples, which compares \<open>(f_cost, g_cost, node, path)\<close>
  lexicographically, cells as pairs and paths as lists (a proper prefix is smaller). This is
  the order of the product and list instances imported here. \<open>g_cost\<close> counts steps from 0
  upwards and is a natural number; \<open>f_cost\<close> adds the integer heuristic to it. \<open>g_costs\<close> is a
  dictionary from cells to step counts.
\<close>

definition heappop :: "entry list \<Rightarrow> entry \<times> entry list" where
  "heappop open_set = (let e = min_list open_set in (e, remove1 e open_set))"

definition heappush :: "entry list \<Rightarrow> entry \<Rightarrow> entry list" where
  "heappush open_set e = e # open_set"

text \<open>
  \<open>a_star_relax\<close> is the body of the loop over the four deltas for one delta \<open>d\<close>, acting on
  \<open>open_set\<close> and \<open>g_costs\<close>: the two \<open>continue\<close> tests, then the test for a new or strictly
  better step count, which stores it and pushes the neighbour.
\<close>

definition a_star_relax ::
  "cell \<Rightarrow> int \<Rightarrow> cell set \<Rightarrow> nat \<Rightarrow> cell \<Rightarrow> cell list \<Rightarrow> int \<times> int
     \<Rightarrow> entry list \<times> (cell \<rightharpoonup> nat) \<Rightarrow> entry list \<times> (cell \<rightharpoonup> nat)" where
  "a_star_relax goal sz obstacles g_cost current_pos path d = (\<lambda>(open_set, g_costs).
     case d of (dx, dy) \<Rightarrow>
       let neighbor_x = fst current_pos + dx; neighbor_y = snd current_pos + dy;
           neighbor_pos = (neighbor_x, neighbor_y)
       in if \<not> (0 \<le> neighbor_x \<and> neighbor_x < sz \<and> 0 \<le> neighbor_y \<and> neighbor_y < sz)
          then (open_set, g_costs)
          else if neighbor_pos \<in> obstacles then (open_set, g_costs)
          else
            let new_g_cost = g_cost + 1
            in if (case g_costs neighbor_pos of None \<Rightarrow> True | Some g \<Rightarrow> new_g_cost < g)
               then
                 let g_costs' = g_costs(neighbor_pos \<mapsto> new_g_cost);
                     h_cost = heuristic neighbor_pos goal;
                     f_cost = int new_g_cost + h_cost
                 in (heappush open_set (f_cost, new_g_cost, neighbor_pos, path @ [current_pos]),
                     g_costs')
               else (open_set, g_costs))"

text \<open>
  Termination of the \<open>while open_set:\<close> loop. A pass that pushes an entry either gives a board
  cell its first step count or strictly lowers the step count of one; a pass that pushes
  nothing shortens \<open>open_set\<close> by the entry it popped. So the triple (board cells without a step
  count, sum of the step counts of the board cells, length of \<open>open_set\<close>) decreases
  lexicographically.
\<close>

definition absent :: "int \<Rightarrow> (cell \<rightharpoonup> nat) \<Rightarrow> nat" where
  "absent sz g_costs = card {c \<in> board sz. g_costs c = None}"

definition g_sum :: "int \<Rightarrow> (cell \<rightharpoonup> nat) \<Rightarrow> nat" where
  "g_sum sz g_costs = (\<Sum>c \<in> {c \<in> board sz. g_costs c \<noteq> None}. the (g_costs c))"

lemma absent_update:
  assumes "n \<in> board sz" "g_costs n = None"
  shows "absent sz (g_costs(n \<mapsto> v)) < absent sz g_costs"
proof -
  let ?A = "{c \<in> board sz. g_costs c = None}"
  have eq: "{c \<in> board sz. (g_costs(n \<mapsto> v)) c = None} = ?A - {n}"
    by auto
  have mem: "n \<in> ?A" using assms by simp
  have fin: "finite ?A" by simp
  from card_Diff1_less [OF fin mem] show ?thesis
    unfolding absent_def eq .
qed

lemma g_sum_update:
  assumes "n \<in> board sz" "g_costs n = Some g" "v < g"
  shows "absent sz (g_costs(n \<mapsto> v)) = absent sz g_costs"
    and "g_sum sz (g_costs(n \<mapsto> v)) < g_sum sz g_costs"
proof -
  have a: "{c \<in> board sz. (g_costs(n \<mapsto> v)) c = None} = {c \<in> board sz. g_costs c = None}"
    using assms by auto
  then show "absent sz (g_costs(n \<mapsto> v)) = absent sz g_costs" by (simp add: absent_def)
  let ?S = "{c \<in> board sz. g_costs c \<noteq> None}"
  have s: "{c \<in> board sz. (g_costs(n \<mapsto> v)) c \<noteq> None} = ?S" using assms by auto
  have fin: "finite ?S" by simp
  have mem: "n \<in> ?S" using assms by simp
  have "(\<Sum>c \<in> ?S. the ((g_costs(n \<mapsto> v)) c)) = v + (\<Sum>c \<in> ?S - {n}. the ((g_costs(n \<mapsto> v)) c))"
    using sum.remove [OF fin mem, of "\<lambda>c. the ((g_costs(n \<mapsto> v)) c)"] by simp
  also have "(\<Sum>c \<in> ?S - {n}. the ((g_costs(n \<mapsto> v)) c)) = (\<Sum>c \<in> ?S - {n}. the (g_costs c))"
    by (rule sum.cong) auto
  also have "v + \<dots> < g + (\<Sum>c \<in> ?S - {n}. the (g_costs c))" using assms by simp
  also have "\<dots> = (\<Sum>c \<in> ?S. the (g_costs c))"
    using sum.remove [OF fin mem, of "\<lambda>c. the (g_costs c)"] assms by simp
  finally show "g_sum sz (g_costs(n \<mapsto> v)) < g_sum sz g_costs"
    unfolding g_sum_def s .
qed

definition progress :: "int \<Rightarrow> (cell \<rightharpoonup> nat) \<Rightarrow> (cell \<rightharpoonup> nat) \<Rightarrow> bool" where
  "progress sz g' g = (absent sz g' < absent sz g \<or> absent sz g' = absent sz g \<and> g_sum sz g' < g_sum sz g)"

lemma a_star_relax_cases:
  assumes "a_star_relax goal sz obstacles g_cost current_pos path (dx, dy) (open_set, g_costs)
             = (open_set', g_costs')"
  shows "((fst current_pos + dx, snd current_pos + dy) \<in> board sz
           \<and> (fst current_pos + dx, snd current_pos + dy) \<notin> obstacles
           \<and> (\<forall>g. g_costs (fst current_pos + dx, snd current_pos + dy) = Some g \<longrightarrow> g_cost + 1 < g)
           \<and> g_costs' = g_costs((fst current_pos + dx, snd current_pos + dy) \<mapsto> g_cost + 1)
           \<and> open_set' = (int (g_cost + 1) + heuristic (fst current_pos + dx, snd current_pos + dy) goal,
                 g_cost + 1, (fst current_pos + dx, snd current_pos + dy), path @ [current_pos]) # open_set)
         \<or> (\<not> ((fst current_pos + dx, snd current_pos + dy) \<in> board sz
               \<and> (fst current_pos + dx, snd current_pos + dy) \<notin> obstacles
               \<and> (\<forall>g. g_costs (fst current_pos + dx, snd current_pos + dy) = Some g \<longrightarrow> g_cost + 1 < g))
             \<and> g_costs' = g_costs \<and> open_set' = open_set)"
proof (cases "g_costs (fst current_pos + dx, snd current_pos + dy)")
  case None
  with assms show ?thesis
    by (simp add: a_star_relax_def Let_def board_def heappush_def split: if_splits) blast
next
  case (Some g)
  with assms show ?thesis
    by (simp add: a_star_relax_def Let_def board_def heappush_def split: if_splits) blast
qed

lemma a_star_relax_progress:
  assumes "a_star_relax goal sz obstacles g_cost current_pos path d (open_set, g_costs) = (open_set', g_costs')"
  shows "progress sz g_costs' g_costs \<or> (g_costs' = g_costs \<and> open_set' = open_set)"
proof -
  obtain dx dy where d: "d = (dx, dy)" by (cases d)
  let ?n = "(fst current_pos + dx, snd current_pos + dy)"
  from a_star_relax_cases [OF assms [unfolded d]] show ?thesis
  proof (elim disjE conjE)
    assume nb: "?n \<in> board sz" and c: "\<forall>g. g_costs ?n = Some g \<longrightarrow> g_cost + 1 < g"
      and upd: "g_costs' = g_costs(?n \<mapsto> g_cost + 1)"
    show ?thesis
    proof (cases "g_costs ?n")
      case None
      from absent_update [of ?n sz g_costs "g_cost + 1", OF nb None] show ?thesis by (simp add: upd progress_def)
    next
      case (Some g)
      with c have "g_cost + 1 < g" by simp
      from g_sum_update [of ?n sz g_costs g "g_cost + 1", OF nb Some this] show ?thesis by (simp add: upd progress_def)
    qed
  qed simp
qed

lemma progress_trans: "progress sz g2 g1 \<Longrightarrow> progress sz g1 g0 \<Longrightarrow> progress sz g2 g0"
  by (auto simp: progress_def)

lemma a_star_fold_progress:
  assumes "fold (a_star_relax goal sz obstacles g_cost current_pos path) ds (open_set, g_costs) = (open_set', g_costs')"
  shows "progress sz g_costs' g_costs \<or> (g_costs' = g_costs \<and> open_set' = open_set)"
  using assms
proof (induction ds arbitrary: open_set g_costs)
  case Nil
  then show ?case by simp
next
  case (Cons d ds)
  obtain o1 g1 where s: "a_star_relax goal sz obstacles g_cost current_pos path d (open_set, g_costs) = (o1, g1)"
    by (cases "a_star_relax goal sz obstacles g_cost current_pos path d (open_set, g_costs)")
  from Cons.prems s have "fold (a_star_relax goal sz obstacles g_cost current_pos path) ds (o1, g1) = (open_set', g_costs')"
    by simp
  from Cons.IH [OF this] a_star_relax_progress [OF s] show ?case
    by (auto intro: progress_trans)
qed

lemma min_list_in: "(xs :: ('a::linorder) list) \<noteq> [] \<Longrightarrow> min_list xs \<in> set xs"
  using Min_in [of "set xs"] by (simp add: min_list_Min)

lemma min_list_le: "(xs :: ('a::linorder) list) \<noteq> [] \<Longrightarrow> x \<in> set xs \<Longrightarrow> min_list xs \<le> x"
  by (simp add: min_list_Min)

lemma heappop_length:
  "open_set \<noteq> [] \<Longrightarrow> heappop open_set = (e, open_set') \<Longrightarrow> length open_set' < length open_set"
  by (auto simp: heappop_def Let_def length_remove1 min_list_in)

function a_star_loop ::
  "(int \<times> int) list \<Rightarrow> cell \<Rightarrow> int \<Rightarrow> cell set \<Rightarrow> entry list \<Rightarrow> (cell \<rightharpoonup> nat) \<Rightarrow> cell list option" where
  "a_star_loop ds goal sz obstacles open_set g_costs =
     (if open_set = [] then None
      else
        case heappop open_set of ((f_cost, g_cost, current_pos, path), open_set') \<Rightarrow>
          if current_pos = goal then Some (path @ [current_pos])
          else
            case fold (a_star_relax goal sz obstacles g_cost current_pos path) ds (open_set', g_costs)
            of (open_set'', g_costs') \<Rightarrow> a_star_loop ds goal sz obstacles open_set'' g_costs')"
  by pat_completeness auto
termination
proof (relation "inv_image (less_than <*lex*> less_than <*lex*> less_than)
         (\<lambda>(ds, goal, sz, obstacles, open_set, g_costs).
            (absent sz g_costs, g_sum sz g_costs, length open_set))", goal_cases)
  case 1
  show ?case by (intro wf_inv_image wf_lex_prod wf_less_than)
next
  case (2 ds goal sz obstacles open_set g_costs x1 x2 f_cost y g_cost z current_pos path x1a x2a)
  from 2(2,3,4,5) have pop: "heappop open_set = ((f_cost, g_cost, current_pos, path), x2)"
    by (metis)
  from 2(7) have f: "fold (a_star_relax goal sz obstacles g_cost current_pos path) ds (x2, g_costs) = (x1a, x2a)"
    by simp
  from heappop_length [OF 2(1) pop] a_star_fold_progress [OF f]
  show ?case by (auto simp: progress_def)
qed

text \<open>
  The equation of the loop rewrites the loop in terms of itself; it is applied by hand, one
  pass at a time.
\<close>

declare a_star_loop.simps [simp del]

definition a_star_search :: "cell \<Rightarrow> cell \<Rightarrow> int \<Rightarrow> cell list \<Rightarrow> cell list option" where
  "a_star_search start goal sz snake_body =
     (let open_set = [(0, 0, start, [])];
          g_costs = [start \<mapsto> 0];
          obstacles = set snake_body;
          obstacles = (if goal \<in> obstacles then obstacles - {goal} else obstacles);
          obstacles = (if start \<in> obstacles then obstacles - {start} else obstacles)
      in a_star_loop (Direction_values path_planning) goal sz obstacles open_set g_costs)"

section \<open>Safety predicates (safety\_logic.py)\<close>

text \<open>
  \<open>is_collision(pos, size, snake_body)\<close>: the wall test, then membership of \<open>pos\<close> in
  \<open>list(snake_body)[:-1]\<close>, the body without its last element (\<open>[][:-1]\<close> is \<open>[]\<close>).
  The parameter \<open>size\<close> is written \<open>sz\<close> throughout, \<open>size\<close> being a constant of HOL.
\<close>

definition is_collision :: "cell \<Rightarrow> int \<Rightarrow> cell list \<Rightarrow> bool" where
  "is_collision pos sz snake_body =
     (case pos of (x, y) \<Rightarrow>
        if \<not> (0 \<le> x \<and> x < sz \<and> 0 \<le> y \<and> y < sz) then True
        else if pos \<in> set (butlast snake_body) then True
        else False)"

text \<open>
  \<open>is_future_isolated\<close> calls the copy of \<open>has_path_to_target_bfs\<close> defined in
  \<open>safety_logic.py\<close>.
\<close>

definition is_future_isolated :: "cell \<Rightarrow> cell \<Rightarrow> int \<Rightarrow> cell list \<Rightarrow> cell \<Rightarrow> bool" where
  "is_future_isolated head_pos food_pos sz snake_body tail_pos =
     (if has_path_to_target_bfs safety_logic head_pos food_pos sz snake_body then False
      else if has_path_to_target_bfs safety_logic head_pos tail_pos sz snake_body then False
      else True)"

section \<open>Cost model (cost\_function.py)\<close>

text \<open>
  \<open>turn_cost\<close>. The dictionary \<open>opposite_directions\<close> is keyed by the members of the
  \<open>Direction\<close> class of \<open>cost_function.py\<close>. \<open>opposite_directions.get(current_dir)\<close> is \<open>None\<close>
  for a key that is not in the dictionary, and \<open>None == next_dir\<close> is false.
\<close>

definition opposite_directions :: "Direction \<rightharpoonup> Direction" where
  "opposite_directions =
     [(cost_function, UP) \<mapsto> (cost_function, DOWN),
      (cost_function, DOWN) \<mapsto> (cost_function, UP),
      (cost_function, LEFT) \<mapsto> (cost_function, RIGHT),
      (cost_function, RIGHT) \<mapsto> (cost_function, LEFT)]"

definition turn_cost :: "Direction \<Rightarrow> Direction \<Rightarrow> int" where
  "turn_cost current_dir next_dir =
     (if current_dir = next_dir then 0
      else if opposite_directions current_dir = Some next_dir then 1000000
      else 1)"

text \<open>
  The errors the modelled code can raise, and the value of a cost: the float \<open>inf\<close> or a
  finite number. Every finite cost of \<open>calculate_action_cost\<close> is a sum of integers (starting
  from \<open>0.0\<close>), which binary floating point represents exactly at the sizes a board in memory
  allows, so finite costs are integers here. Costs are ordered as floats are: a finite cost
  is below \<open>inf\<close>.
\<close>

datatype error = NameError string | IndexError

datatype cost = Finite int | Infinity

instantiation cost :: linorder
begin

fun less_eq_cost :: "cost \<Rightarrow> cost \<Rightarrow> bool" where
  "less_eq_cost (Finite a) (Finite b) = (a \<le> b)"
| "less_eq_cost c Infinity = True"
| "less_eq_cost Infinity (Finite b) = False"

definition less_cost :: "cost \<Rightarrow> cost \<Rightarrow> bool" where
  "less_cost a b = (a \<le> b \<and> \<not> b \<le> (a :: cost))"

instance
proof
  fix x y z :: cost
  show "(x < y) = (x \<le> y \<and> \<not> y \<le> x)" by (simp add: less_cost_def)
  show "x \<le> x" by (cases x) simp_all
  show "x \<le> y \<Longrightarrow> y \<le> z \<Longrightarrow> x \<le> z" by (cases x; cases y; cases z) simp_all
  show "x \<le> y \<Longrightarrow> y \<le> x \<Longrightarrow> x = y" by (cases x; cases y) simp_all
  show "x \<le> y \<or> y \<le> x" by (cases x; cases y) auto
qed

end

text \<open>The truth value Python gives a list or \<open>None\<close>: false for \<open>None\<close> and for \<open>[]\<close>.\<close>

definition truthy :: "'a list option \<Rightarrow> bool" where
  "truthy p = (case p of None \<Rightarrow> False | Some xs \<Rightarrow> xs \<noteq> [])"

text \<open>
  The addend of line 71, \<open>turn_cost(current_direction, proposed_action) * 5\<close>, and the value of
  the local variable \<open>cost\<close> after the path term (lines 59 to 81), reached when the next head
  is no collision.
\<close>

definition turn_term :: "Direction \<Rightarrow> Direction \<Rightarrow> int" where
  "turn_term current_direction proposed_action = turn_cost current_direction proposed_action * 5"

definition cost_after_path_term ::
  "Direction \<Rightarrow> Direction \<Rightarrow> cell list option \<Rightarrow> int" where
  "cost_after_path_term current_direction proposed_action path_to_food =
     (let cost = 0;
          cost = cost + turn_term current_direction proposed_action
      in if truthy path_to_food
         then
           let cost = cost + int (length (the path_to_food))
           in if length (the path_to_food) = 1 then cost - 100 else cost
         else cost + 1000)"

text \<open>
  \<open>calculate_action_cost\<close>. The four helper functions are parameters, as in the source. After
  the path term, line 92 evaluates the global name \<open>deque\<close>. \<open>cost_function.py\<close> imports
  \<open>List\<close>, \<open>Tuple\<close> and \<open>Enum\<close> only and binds \<open>deque\<close> nowhere, neither at module level nor
  in its test block, so the lookup raises \<open>NameError\<close>; lines 93 to 112 are never reached and
  the model ends there.
\<close>

definition calculate_action_cost ::
  "cell \<Rightarrow> Direction \<Rightarrow> Direction \<Rightarrow> cell list \<Rightarrow> cell \<Rightarrow> int
     \<Rightarrow> (cell \<Rightarrow> int \<Rightarrow> cell list \<Rightarrow> bool)
     \<Rightarrow> (cell \<Rightarrow> cell \<Rightarrow> int \<Rightarrow> cell list \<Rightarrow> cell list option)
     \<Rightarrow> (cell \<Rightarrow> cell \<Rightarrow> int \<Rightarrow> cell list \<Rightarrow> cell \<Rightarrow> bool)
     \<Rightarrow> (cell \<Rightarrow> int \<Rightarrow> cell list \<Rightarrow> cell \<Rightarrow> nat \<times> cell list)
     \<Rightarrow> error + cost" where
  "calculate_action_cost current_head current_direction proposed_action snake_body food_position
       board_size is_collision_func a_star_search_func is_future_isolated_func
       find_reachable_areas_bfs_func =
     (case dir_value proposed_action of (dx, dy) \<Rightarrow>
        let next_head = (fst current_head + dx, snd current_head + dy)
        in if is_collision_func next_head board_size snake_body then Inr Infinity
           else
             let path_to_food = a_star_search_func next_head food_position board_size snake_body;
                 cost = cost_after_path_term current_direction proposed_action path_to_food
             in Inl (NameError ''deque''))"

section \<open>Policy (policy\_agent.py)\<close>

text \<open>
  \<open>policy_agent.py\<close> imports \<open>Direction\<close> from \<open>snake_env\<close>, the two searches from
  \<open>state_perception\<close>, and passes \<open>is_collision\<close>, \<open>a_star_search\<close>, \<open>is_future_isolated\<close> and
  \<open>find_reachable_areas_bfs\<close> to \<open>calculate_action_cost\<close>.
\<close>

record PolicyAgent =
  board_size :: int

definition get_safe_actions :: "PolicyAgent \<Rightarrow> cell \<Rightarrow> cell list \<Rightarrow> Direction list" where
  "get_safe_actions self current_head snake_body =
     filter (\<lambda>action.
        case dir_value action of (dx, dy) \<Rightarrow>
          let next_head = (fst current_head + dx, snd current_head + dy)
          in \<not> is_collision next_head (board_size self) snake_body)
       (Direction_members snake_env)"

text \<open>
  The scoring loop: each safe action is given its cost, in order; an exception raised by
  \<open>calculate_action_cost\<close> leaves the loop and the function.
\<close>

fun score_actions ::
  "PolicyAgent \<Rightarrow> cell \<Rightarrow> Direction \<Rightarrow> cell list \<Rightarrow> cell \<Rightarrow> Direction list
     \<Rightarrow> error + (Direction \<times> cost) list" where
  "score_actions self current_head current_direction snake_body food_position [] = Inr []"
| "score_actions self current_head current_direction snake_body food_position (action # actions) =
     (case calculate_action_cost current_head current_direction action snake_body food_position
             (board_size self) is_collision a_star_search is_future_isolated
             (find_reachable_areas_bfs state_perception) of
        Inl e \<Rightarrow> Inl e
      | Inr cost \<Rightarrow>
          (case score_actions self current_head current_direction snake_body food_position actions of
             Inl e \<Rightarrow> Inl e
           | Inr action_costs \<Rightarrow> Inr ((action, cost) # action_costs)))"

text \<open>
  \<open>choose_best_action\<close> returns the lines it prints together with its result. With no safe
  action it prints the warning, scans the four directions again with the same test and
  returns the first that passes, or the current direction when none does. Otherwise the
  scored actions are sorted by cost (\<open>list.sort\<close> is stable, as \<open>sort_key\<close> is) and the action
  of the first is returned.
\<close>

definition choose_best_action ::
  "PolicyAgent \<Rightarrow> cell \<Rightarrow> Direction \<Rightarrow> cell list \<Rightarrow> cell \<Rightarrow> string list \<times> (error + Direction)" where
  "choose_best_action self current_head current_direction snake_body food_position =
     (let possible_actions = get_safe_actions self current_head snake_body
      in if possible_actions = []
         then
           ([''WARNING: No safe actions found. Game likely over or trapped.''],
            case find (\<lambda>action.
                    case dir_value action of (dx, dy) \<Rightarrow>
                      let next_head = (fst current_head + dx, snd current_head + dy)
                      in \<not> is_collision next_head (board_size self) snake_body)
                   (Direction_members snake_env) of
              Some action \<Rightarrow> Inr action
            | None \<Rightarrow> Inr current_direction)
         else
           ([],
            case score_actions self current_head current_direction snake_body food_position
                   possible_actions of
              Inl e \<Rightarrow> Inl e
            | Inr action_costs \<Rightarrow>
                (case sort_key snd action_costs of
                   [] \<Rightarrow> Inl IndexError
                 | best # _ \<Rightarrow> Inr (fst best))))"

section \<open>Reference notions\<close>

text \<open>
  The grid graph of the specification, written from its words and independently of the
  searches: two cells are adjacent when they differ by one in exactly one coordinate
  (4-connectivity); a cell is free when it is in bounds and no obstacle. The flood-fill
  reference from a start cell is the least set that holds the start and every free cell
  adjacent to one of its cells; the start itself is counted whatever it is.
\<close>

definition adjacent :: "cell \<Rightarrow> cell \<Rightarrow> bool" where
  "adjacent a b = (\<bar>fst a - fst b\<bar> + \<bar>snd a - snd b\<bar> = 1)"

definition free_cell :: "int \<Rightarrow> cell set \<Rightarrow> cell \<Rightarrow> bool" where
  "free_cell sz obstacles c = (0 \<le> fst c \<and> fst c < sz \<and> 0 \<le> snd c \<and> snd c < sz \<and> c \<notin> obstacles)"

inductive_set flood_fill_reference :: "cell \<Rightarrow> int \<Rightarrow> cell set \<Rightarrow> cell set"
  for start :: cell and sz :: int and obstacles :: "cell set" where
  flood_start: "start \<in> flood_fill_reference start sz obstacles"
| flood_step: "c \<in> flood_fill_reference start sz obstacles \<Longrightarrow> adjacent c n \<Longrightarrow> free_cell sz obstacles n
     \<Longrightarrow> n \<in> flood_fill_reference start sz obstacles"

text \<open>
  An order of traversal: any list of deltas that holds exactly the four unit deltas, in any
  order and with any repetitions.
\<close>

definition all_four :: "(int \<times> int) list \<Rightarrow> bool" where
  "all_four ds = (set ds = {(0, -1), (0, 1), (-1, 0), (1, 0)})"

text \<open>
  A walk is a non-empty list of cells in which every cell after the first is free and
  adjacent to the one before it; the first cell is not tested, as no search tests its start.
  A path between two cells is a walk from the one to the other. Its number of steps is its
  length less one, so a shortest path is a path of least length: the result a breadth-first
  shortest-path reference gives on the same obstacles.
\<close>

fun walk :: "int \<Rightarrow> cell set \<Rightarrow> cell list \<Rightarrow> bool" where
  "walk sz obstacles [] = False"
| "walk sz obstacles [c] = True"
| "walk sz obstacles (c # c' # cs) =
     (adjacent c c' \<and> free_cell sz obstacles c' \<and> walk sz obstacles (c' # cs))"

definition path_between :: "int \<Rightarrow> cell set \<Rightarrow> cell \<Rightarrow> cell \<Rightarrow> cell list \<Rightarrow> bool" where
  "path_between sz obstacles start goal p =
     (p \<noteq> [] \<and> hd p = start \<and> last p = goal \<and> walk sz obstacles p)"

section \<open>Correctness of the reachability search\<close>

lemma adjacent_iff:
  "adjacent (cx, cy) n \<longleftrightarrow> (\<exists>d \<in> {(0, -1), (0, 1), (-1, 0), (1, 0)}. n = (cx + fst d, cy + snd d))"
  by (cases n) (auto simp: adjacent_def)

lemma bfs_visit_cases:
  assumes "bfs_visit sz obstacles (cx, cy) (dx, dy) (q, visited) = (q', visited')"
  shows "(free_cell sz obstacles (cx + dx, cy + dy) \<and> (cx + dx, cy + dy) \<notin> visited
            \<and> q' = q @ [(cx + dx, cy + dy)] \<and> visited' = insert (cx + dx, cy + dy) visited)
         \<or> (\<not> (free_cell sz obstacles (cx + dx, cy + dy) \<and> (cx + dx, cy + dy) \<notin> visited)
            \<and> q' = q \<and> visited' = visited)"
  using assms by (auto simp: bfs_visit_def free_cell_def Let_def split: if_splits)

lemma bfs_fold_result:
  assumes "fold (bfs_visit sz obstacles (cx, cy)) ds (q, visited) = (q', visited')"
  shows "\<exists>new. q' = q @ new \<and> visited' = visited \<union> set new \<and> distinct new
           \<and> set new \<inter> visited = {}
           \<and> (\<forall>n \<in> set new. free_cell sz obstacles n \<and> (\<exists>d \<in> set ds. n = (cx + fst d, cy + snd d)))
           \<and> (\<forall>d \<in> set ds. free_cell sz obstacles (cx + fst d, cy + snd d)
                 \<longrightarrow> (cx + fst d, cy + snd d) \<in> visited')"
  using assms
proof (induction ds arbitrary: q visited)
  case Nil
  then show ?case by simp
next
  case (Cons d ds)
  obtain dx dy where d: "d = (dx, dy)" by (cases d)
  obtain q1 v1 where s: "bfs_visit sz obstacles (cx, cy) (dx, dy) (q, visited) = (q1, v1)"
    by (cases "bfs_visit sz obstacles (cx, cy) (dx, dy) (q, visited)")
  from Cons.prems s d have f: "fold (bfs_visit sz obstacles (cx, cy)) ds (q1, v1) = (q', visited')"
    by simp
  from Cons.IH [OF f] obtain new where new:
    "q' = q1 @ new" "visited' = v1 \<union> set new" "distinct new" "set new \<inter> v1 = {}"
    "\<forall>n \<in> set new. free_cell sz obstacles n \<and> (\<exists>d \<in> set ds. n = (cx + fst d, cy + snd d))"
    "\<forall>d \<in> set ds. free_cell sz obstacles (cx + fst d, cy + snd d)
        \<longrightarrow> (cx + fst d, cy + snd d) \<in> visited'"
    by blast
  from bfs_visit_cases [OF s] show ?case
  proof (elim disjE conjE)
    assume a: "free_cell sz obstacles (cx + dx, cy + dy)" "(cx + dx, cy + dy) \<notin> visited"
      "q1 = q @ [(cx + dx, cy + dy)]" "v1 = insert (cx + dx, cy + dy) visited"
    show ?thesis
      apply (rule exI [of _ "(cx + dx, cy + dy) # new"])
      using a new d by auto
  next
    assume a: "\<not> (free_cell sz obstacles (cx + dx, cy + dy) \<and> (cx + dx, cy + dy) \<notin> visited)"
      "q1 = q" "v1 = visited"
    show ?thesis
      apply (rule exI [of _ new])
      using a new d by auto
  qed
qed

text \<open>
  The invariant of the \<open>while q:\<close> loop: the visited cells are the cells counted so far and
  the cells queued, without repetition; they are all in the flood fill of the start; and every
  free neighbour of a counted cell is visited.
\<close>

definition bfs_inv ::
  "cell \<Rightarrow> int \<Rightarrow> cell set \<Rightarrow> cell list \<Rightarrow> cell set \<Rightarrow> nat \<Rightarrow> cell list \<Rightarrow> bool" where
  "bfs_inv start sz obstacles q visited n cells =
     (visited = set cells \<union> set q \<and> distinct (cells @ q) \<and> n = length cells
      \<and> start \<in> visited \<and> visited \<subseteq> flood_fill_reference start sz obstacles
      \<and> (\<forall>c \<in> set cells. \<forall>c'. adjacent c c' \<and> free_cell sz obstacles c' \<longrightarrow> c' \<in> visited))"

lemma bfs_inv_step:
  assumes inv: "bfs_inv start sz obstacles (c # q) visited n cells"
    and ds: "all_four ds"
    and f: "fold (bfs_visit sz obstacles c) ds (q, visited) = (q', visited')"
  shows "bfs_inv start sz obstacles q' visited' (n + 1) (cells @ [c])"
proof -
  obtain cx cy where c: "c = (cx, cy)" by (cases c)
  from bfs_fold_result [OF f [unfolded c]] obtain new where new:
    "q' = q @ new" "visited' = visited \<union> set new" "distinct new" "set new \<inter> visited = {}"
    "\<forall>n \<in> set new. free_cell sz obstacles n \<and> (\<exists>d \<in> set ds. n = (cx + fst d, cy + snd d))"
    "\<forall>d \<in> set ds. free_cell sz obstacles (cx + fst d, cy + snd d)
        \<longrightarrow> (cx + fst d, cy + snd d) \<in> visited'"
    by blast
  from inv have i: "visited = set cells \<union> set (c # q)" "distinct (cells @ c # q)" "n = length cells"
    "start \<in> visited" "visited \<subseteq> flood_fill_reference start sz obstacles"
    "\<forall>c \<in> set cells. \<forall>c'. adjacent c c' \<and> free_cell sz obstacles c' \<longrightarrow> c' \<in> visited"
    unfolding bfs_inv_def by blast+
  have cf: "c \<in> flood_fill_reference start sz obstacles" using i(1,5) by auto
  have 1: "visited' = set (cells @ [c]) \<union> set q'" using new(1,2) i(1) by auto
  have 2: "distinct ((cells @ [c]) @ q')" using new(1,3,4) i(1,2) by auto
  have 3: "visited' \<subseteq> flood_fill_reference start sz obstacles"
  proof
    fix x assume "x \<in> visited'"
    then consider "x \<in> visited" | "x \<in> set new" using new(2) by auto
    then show "x \<in> flood_fill_reference start sz obstacles"
    proof cases
      case 1 then show ?thesis using i(5) by auto
    next
      case 2
      with new(5) ds have "free_cell sz obstacles x" "adjacent c x"
        unfolding c adjacent_iff all_four_def by auto
      then show ?thesis using cf by (auto intro: flood_step)
    qed
  qed
  have 4: "\<forall>a \<in> set (cells @ [c]). \<forall>c'. adjacent a c' \<and> free_cell sz obstacles c' \<longrightarrow> c' \<in> visited'"
  proof (intro ballI allI impI)
    fix a c' assume a: "a \<in> set (cells @ [c])" and s: "adjacent a c' \<and> free_cell sz obstacles c'"
    show "c' \<in> visited'"
    proof (cases "a \<in> set cells")
      case True
      with i(6) s have "c' \<in> visited" by blast
      then show ?thesis using new(2) by simp
    next
      case False
      then have "a = c" using a by auto
      with s have "adjacent (cx, cy) c'" by (simp add: c)
      then obtain d where "d \<in> set ds" "c' = (cx + fst d, cy + snd d)"
        using ds unfolding adjacent_iff all_four_def by blast
      then show ?thesis using new(6) s by auto
    qed
  qed
  show ?thesis unfolding bfs_inv_def using 1 2 3 4 i(3,4) new(2) by auto
qed

lemma flood_fill_reference_closed:
  assumes "start \<in> V" and "\<forall>c \<in> V. \<forall>c'. adjacent c c' \<and> free_cell sz obstacles c' \<longrightarrow> c' \<in> V"
    and "x \<in> flood_fill_reference start sz obstacles"
  shows "x \<in> V"
  using assms(3) by (induction rule: flood_fill_reference.induct) (use assms(1,2) in auto)

lemma bfs_loop_correct:
  assumes "all_four ds" and "bfs_inv start sz obstacles q visited n cells"
  shows "fst (bfs_loop ds sz obstacles q visited n cells) = card (flood_fill_reference start sz obstacles)
       \<and> set (snd (bfs_loop ds sz obstacles q visited n cells)) = flood_fill_reference start sz obstacles
       \<and> distinct (snd (bfs_loop ds sz obstacles q visited n cells))"
  using assms
proof (induction ds sz obstacles q visited n cells rule: bfs_loop.induct)
  case (1 ds sz obstacles visited n cells)
  then have i: "visited = set cells" "distinct cells" "n = length cells"
    "start \<in> visited" "visited \<subseteq> flood_fill_reference start sz obstacles"
    "\<forall>c \<in> visited. \<forall>c'. adjacent c c' \<and> free_cell sz obstacles c' \<longrightarrow> c' \<in> visited"
    by (auto simp: bfs_inv_def)
  have "flood_fill_reference start sz obstacles \<subseteq> visited"
    using flood_fill_reference_closed [OF i(4) i(6)] by auto
  with i(5) have "visited = flood_fill_reference start sz obstacles" by auto
  with i(1,2,3) show ?case by (auto simp: distinct_card)
next
  case (2 ds sz obstacles c q visited n cells)
  obtain q' visited' where f: "fold (bfs_visit sz obstacles c) ds (q, visited) = (q', visited')"
    by (cases "fold (bfs_visit sz obstacles c) ds (q, visited)")
  have "bfs_inv start sz obstacles q' visited' (n + 1) (cells @ [c])"
    using bfs_inv_step [OF "2.prems"(2,1) f] .
  from "2.IH" [OF f [symmetric] "2.prems"(1) this] f show ?case by simp
qed

lemma all_four_Direction_values: "all_four (Direction_values m)"
  by (auto simp: all_four_def Direction_values_def Direction_members_def dir_value_def)

section \<open>Correctness of the shortest path search\<close>

lemma walk_snoc:
  "walk sz obstacles (p @ [c]) \<Longrightarrow> adjacent c n \<Longrightarrow> free_cell sz obstacles n
     \<Longrightarrow> walk sz obstacles (p @ [c, n])"
proof (induction p)
  case Nil
  then show ?case by simp
next
  case (Cons a p)
  show ?case
  proof (cases p)
    case Nil
    with Cons.prems show ?thesis by simp
  next
    case (Cons b p')
    with Cons.prems Cons.IH show ?thesis by simp
  qed
qed

lemma heuristic_step: "adjacent c c' \<Longrightarrow> heuristic c x \<le> heuristic c' x + 1"
  by (auto simp: adjacent_def heuristic_def)

lemma heuristic_self [simp]: "heuristic c c = 0"
  by (simp add: heuristic_def)

lemma heuristic_nonneg [simp]: "0 \<le> heuristic a b"
  by (simp add: heuristic_def)

lemma heuristic_walk:
  "walk sz obstacles p \<Longrightarrow> heuristic (hd p) (last p) \<le> int (length p) - 1"
proof (induction sz obstacles p rule: walk.induct)
  case (1 sz obstacles)
  then show ?case by simp
next
  case (2 sz obstacles c)
  then show ?case by simp
next
  case (3 sz obstacles c c' cs)
  from "3.prems" have a: "adjacent c c'" and w: "walk sz obstacles (c' # cs)" by simp_all
  from "3.IH" [OF w] have "heuristic c' (last (c' # cs)) \<le> int (length (c' # cs)) - 1" by simp
  with heuristic_step [OF a, of "last (c' # cs)"] show ?case by simp
qed

lemma free_cell_board: "free_cell sz obstacles n \<longleftrightarrow> n \<in> board sz \<and> n \<notin> obstacles"
  by (cases n) (auto simp: free_cell_def board_def)

text \<open>
  What one pass of the loop over the deltas \<open>ds\<close> does to \<open>open_set\<close> and \<open>g_costs\<close>, for the
  entry \<open>(f, g, cur, path)\<close> just popped: entries are only added, each new one being the entry
  of a free neighbour of \<open>cur\<close> at \<open>g + 1\<close> steps; a step count that changes becomes \<open>g + 1\<close> and
  has its entry in \<open>open_set\<close>; step counts only decrease; and every free neighbour in the
  directions tried has a step count of at most \<open>g + 1\<close> afterwards.
\<close>

definition relaxed ::
  "cell \<Rightarrow> int \<Rightarrow> cell set \<Rightarrow> nat \<Rightarrow> cell \<Rightarrow> cell list \<Rightarrow> (int \<times> int) list
     \<Rightarrow> entry list \<Rightarrow> (cell \<rightharpoonup> nat) \<Rightarrow> entry list \<Rightarrow> (cell \<rightharpoonup> nat) \<Rightarrow> bool" where
  "relaxed goal sz obstacles g cur path ds os gc os' gc' =
     (set os \<subseteq> set os'
      \<and> (\<forall>e \<in> set os'. e \<in> set os \<or>
            (\<exists>d \<in> set ds. e = (int (g + 1) + heuristic (fst cur + fst d, snd cur + snd d) goal,
                               g + 1, (fst cur + fst d, snd cur + snd d), path @ [cur])
                          \<and> free_cell sz obstacles (fst cur + fst d, snd cur + snd d)))
      \<and> (\<forall>c. gc' c = gc c \<or>
            (gc' c = Some (g + 1) \<and> (int (g + 1) + heuristic c goal, g + 1, c, path @ [cur]) \<in> set os'))
      \<and> (\<forall>c g0. gc c = Some g0 \<longrightarrow> (\<exists>g1. gc' c = Some g1 \<and> g1 \<le> g0))
      \<and> (\<forall>d \<in> set ds. free_cell sz obstacles (fst cur + fst d, snd cur + snd d) \<longrightarrow>
            (\<exists>g'. gc' (fst cur + fst d, snd cur + snd d) = Some g' \<and> g' \<le> g + 1)))"

lemma relaxedI:
  assumes "set os \<subseteq> set os'"
    and "\<And>e. e \<in> set os' \<Longrightarrow> e \<in> set os \<or>
            (\<exists>d \<in> set ds. e = (int (g + 1) + heuristic (fst cur + fst d, snd cur + snd d) goal,
                               g + 1, (fst cur + fst d, snd cur + snd d), path @ [cur])
                          \<and> free_cell sz obstacles (fst cur + fst d, snd cur + snd d))"
    and "\<And>c. gc' c = gc c \<or>
            (gc' c = Some (g + 1) \<and> (int (g + 1) + heuristic c goal, g + 1, c, path @ [cur]) \<in> set os')"
    and "\<And>c g0. gc c = Some g0 \<Longrightarrow> \<exists>g1. gc' c = Some g1 \<and> g1 \<le> g0"
    and "\<And>d. d \<in> set ds \<Longrightarrow> free_cell sz obstacles (fst cur + fst d, snd cur + snd d) \<Longrightarrow>
            \<exists>g'. gc' (fst cur + fst d, snd cur + snd d) = Some g' \<and> g' \<le> g + 1"
  shows "relaxed goal sz obstacles g cur path ds os gc os' gc'"
  unfolding relaxed_def using assms by blast

lemma relaxed_sub: "relaxed goal sz obstacles g cur path ds os gc os' gc' \<Longrightarrow> set os \<subseteq> set os'"
  unfolding relaxed_def by (rule conjunct1)

lemma relaxed_new:
  "relaxed goal sz obstacles g cur path ds os gc os' gc' \<Longrightarrow> e \<in> set os' \<Longrightarrow>
   e \<in> set os \<or>
     (\<exists>d \<in> set ds. e = (int (g + 1) + heuristic (fst cur + fst d, snd cur + snd d) goal,
                        g + 1, (fst cur + fst d, snd cur + snd d), path @ [cur])
                   \<and> free_cell sz obstacles (fst cur + fst d, snd cur + snd d))"
  unfolding relaxed_def by blast

lemma relaxed_changed:
  "relaxed goal sz obstacles g cur path ds os gc os' gc' \<Longrightarrow>
   gc' c = gc c \<or>
     (gc' c = Some (g + 1) \<and> (int (g + 1) + heuristic c goal, g + 1, c, path @ [cur]) \<in> set os')"
  unfolding relaxed_def by blast

lemma relaxed_mono:
  "relaxed goal sz obstacles g cur path ds os gc os' gc' \<Longrightarrow> gc c = Some g0 \<Longrightarrow>
   \<exists>g1. gc' c = Some g1 \<and> g1 \<le> g0"
  unfolding relaxed_def by blast

lemma relaxed_done:
  "relaxed goal sz obstacles g cur path ds os gc os' gc' \<Longrightarrow> d \<in> set ds \<Longrightarrow>
   free_cell sz obstacles (fst cur + fst d, snd cur + snd d) \<Longrightarrow>
   \<exists>g'. gc' (fst cur + fst d, snd cur + snd d) = Some g' \<and> g' \<le> g + 1"
  unfolding relaxed_def by blast

lemma relaxed_refl: "relaxed goal sz obstacles g cur path [] os gc os gc"
  by (rule relaxedI) simp_all

lemma relaxed_step:
  assumes "a_star_relax goal sz obstacles g cur path d (os, gc) = (os', gc')"
  shows "relaxed goal sz obstacles g cur path [d] os gc os' gc'"
proof -
  obtain dx dy where d: "d = (dx, dy)" by (cases d)
  let ?n = "(fst cur + dx, snd cur + dy)"
  from a_star_relax_cases [OF assms [unfolded d]] show ?thesis
  proof (elim disjE conjE)
    assume nb: "?n \<in> board sz" and no: "?n \<notin> obstacles"
      and c: "\<forall>g0. gc ?n = Some g0 \<longrightarrow> g + 1 < g0"
      and upd: "gc' = gc(?n \<mapsto> g + 1)"
      and os: "os' = (int (g + 1) + heuristic ?n goal, g + 1, ?n, path @ [cur]) # os"
    have fr: "free_cell sz obstacles ?n" using nb no by (simp add: free_cell_board)
    show ?thesis
    proof (rule relaxedI)
      show "set os \<subseteq> set os'" using os by auto
    next
      fix e assume "e \<in> set os'"
      then have "e \<in> set os \<or> e = (int (g + 1) + heuristic ?n goal, g + 1, ?n, path @ [cur])"
        using os by auto
      then show "e \<in> set os \<or>
            (\<exists>d \<in> set [d]. e = (int (g + 1) + heuristic (fst cur + fst d, snd cur + snd d) goal,
                               g + 1, (fst cur + fst d, snd cur + snd d), path @ [cur])
                          \<and> free_cell sz obstacles (fst cur + fst d, snd cur + snd d))"
        using fr d by auto
    next
      fix c
      show "gc' c = gc c \<or>
            (gc' c = Some (g + 1) \<and> (int (g + 1) + heuristic c goal, g + 1, c, path @ [cur]) \<in> set os')"
        using upd os by (cases "c = ?n") simp_all
    next
      fix c' g0 assume a: "gc c' = Some g0"
      show "\<exists>g1. gc' c' = Some g1 \<and> g1 \<le> g0"
      proof (cases "c' = ?n")
        case True
        with a c have "g + 1 < g0" by simp
        with True upd show ?thesis by simp
      next
        case False
        with a upd show ?thesis by simp
      qed
    next
      fix d' assume "d' \<in> set [d]"
      then have "d' = (dx, dy)" using d by simp
      then show "\<exists>g'. gc' (fst cur + fst d', snd cur + snd d') = Some g' \<and> g' \<le> g + 1"
        using upd by simp
    qed
  next
    assume n: "\<not> (?n \<in> board sz \<and> ?n \<notin> obstacles \<and> (\<forall>g0. gc ?n = Some g0 \<longrightarrow> g + 1 < g0))"
      and same: "gc' = gc" "os' = os"
    show ?thesis
    proof (rule relaxedI)
      fix d' assume "d' \<in> set [d]" and f: "free_cell sz obstacles (fst cur + fst d', snd cur + snd d')"
      then have d': "d' = (dx, dy)" using d by simp
      from f d' have "?n \<in> board sz \<and> ?n \<notin> obstacles" by (simp add: free_cell_board)
      with n obtain g0 where "gc ?n = Some g0" "\<not> g + 1 < g0" by blast
      then show "\<exists>g'. gc' (fst cur + fst d', snd cur + snd d') = Some g' \<and> g' \<le> g + 1"
        using same d' by simp
    qed (simp_all add: same)
  qed
qed

lemma relaxed_trans:
  assumes 1: "relaxed goal sz obstacles g cur path [d] os gc os1 gc1"
    and 2: "relaxed goal sz obstacles g cur path ds os1 gc1 os2 gc2"
  shows "relaxed goal sz obstacles g cur path (d # ds) os gc os2 gc2"
proof (rule relaxedI)
  show "set os \<subseteq> set os2" using relaxed_sub [OF 1] relaxed_sub [OF 2] by (rule subset_trans)
next
  fix e assume e: "e \<in> set os2"
  let ?P = "\<lambda>d. e = (int (g + 1) + heuristic (fst cur + fst d, snd cur + snd d) goal,
                      g + 1, (fst cur + fst d, snd cur + snd d), path @ [cur])
                 \<and> free_cell sz obstacles (fst cur + fst d, snd cur + snd d)"
  from relaxed_new [OF 2 e] consider "e \<in> set os1" | "\<exists>d \<in> set ds. ?P d" by blast
  then show "e \<in> set os \<or> (\<exists>d \<in> set (d # ds). ?P d)"
  proof cases
    case 1
    from relaxed_new [OF assms(1) 1] have "e \<in> set os \<or> ?P d" by simp
    then show ?thesis by auto
  next
    case 2
    then show ?thesis by auto
  qed
next
  fix c
  let ?E = "(int (g + 1) + heuristic c goal, g + 1, c, path @ [cur])"
  from relaxed_changed [OF 2, of c] consider "gc2 c = gc1 c" | "gc2 c = Some (g + 1) \<and> ?E \<in> set os2"
    by blast
  then show "gc2 c = gc c \<or> (gc2 c = Some (g + 1) \<and> ?E \<in> set os2)"
  proof cases
    case a: 1
    from relaxed_changed [OF 1, of c] consider "gc1 c = gc c" | "gc1 c = Some (g + 1) \<and> ?E \<in> set os1"
      by blast
    then show ?thesis
    proof cases
      case 1
      with a show ?thesis by simp
    next
      case 2
      with a relaxed_sub [OF assms(2)] show ?thesis by auto
    qed
  next
    case 2
    then show ?thesis by simp
  qed
next
  fix c g0 assume "gc c = Some g0"
  from relaxed_mono [OF 1 this] obtain g1 where g1: "gc1 c = Some g1" "g1 \<le> g0" by blast
  from relaxed_mono [OF 2 g1(1)] obtain g2 where "gc2 c = Some g2" "g2 \<le> g1" by blast
  with g1 show "\<exists>g1. gc2 c = Some g1 \<and> g1 \<le> g0" by auto
next
  fix d' assume m: "d' \<in> set (d # ds)"
    and f: "free_cell sz obstacles (fst cur + fst d', snd cur + snd d')"
  show "\<exists>g'. gc2 (fst cur + fst d', snd cur + snd d') = Some g' \<and> g' \<le> g + 1"
  proof (cases "d' \<in> set ds")
    case True
    from relaxed_done [OF 2 True f] show ?thesis .
  next
    case False
    with m have "d' \<in> set [d]" by simp
    from relaxed_done [OF 1 this f] obtain g1
      where g1: "gc1 (fst cur + fst d', snd cur + snd d') = Some g1" "g1 \<le> g + 1" by blast
    from relaxed_mono [OF 2 g1(1)] obtain g2
      where "gc2 (fst cur + fst d', snd cur + snd d') = Some g2" "g2 \<le> g1" by blast
    with g1 show ?thesis by auto
  qed
qed

lemma relaxed_fold:
  "fold (a_star_relax goal sz obstacles g cur path) ds (os, gc) = (os', gc') \<Longrightarrow>
   relaxed goal sz obstacles g cur path ds os gc os' gc'"
proof (induction ds arbitrary: os gc)
  case Nil
  then show ?case by (simp add: relaxed_refl)
next
  case (Cons d ds)
  obtain os1 gc1 where s1: "a_star_relax goal sz obstacles g cur path d (os, gc) = (os1, gc1)"
    by (cases "a_star_relax goal sz obstacles g cur path d (os, gc)")
  from Cons.prems s1 have "fold (a_star_relax goal sz obstacles g cur path) ds (os1, gc1) = (os', gc')"
    by simp
  from relaxed_trans [OF relaxed_step [OF s1] Cons.IH [OF this]] show ?case .
qed

text \<open>
  The invariant of the \<open>while open_set:\<close> loop. Every entry carries a walk from the start to
  its cell whose number of steps is its \<open>g_cost\<close>, and its \<open>f_cost\<close> lies between \<open>g_cost\<close> and
  \<open>g_cost\<close> plus the heuristic. The start has step count 0. Every cell with a step count \<open>g\<close>
  either still has an entry at \<open>g\<close> in \<open>open_set\<close> or is settled: it is not the goal and each of
  its free neighbours has a step count of at most \<open>g + 1\<close>.
\<close>

definition entry_ok :: "cell \<Rightarrow> cell \<Rightarrow> int \<Rightarrow> cell set \<Rightarrow> entry \<Rightarrow> bool" where
  "entry_ok start goal sz obstacles e =
     (case e of (f, g, c, path) \<Rightarrow>
        hd (path @ [c]) = start \<and> walk sz obstacles (path @ [c]) \<and> length path = g
        \<and> int g \<le> f \<and> f \<le> int g + heuristic c goal)"

definition settled :: "cell \<Rightarrow> int \<Rightarrow> cell set \<Rightarrow> (cell \<rightharpoonup> nat) \<Rightarrow> cell \<Rightarrow> nat \<Rightarrow> bool" where
  "settled goal sz obstacles gc c g =
     (c \<noteq> goal \<and> (\<forall>n. adjacent c n \<and> free_cell sz obstacles n \<longrightarrow> (\<exists>g'. gc n = Some g' \<and> g' \<le> g + 1)))"

definition a_star_inv ::
  "cell \<Rightarrow> cell \<Rightarrow> int \<Rightarrow> cell set \<Rightarrow> entry list \<Rightarrow> (cell \<rightharpoonup> nat) \<Rightarrow> bool" where
  "a_star_inv start goal sz obstacles os gc =
     ((\<forall>e \<in> set os. entry_ok start goal sz obstacles e)
      \<and> gc start = Some 0
      \<and> (\<forall>c g. gc c = Some g \<longrightarrow>
            (\<exists>f path. (f, g, c, path) \<in> set os) \<or> settled goal sz obstacles gc c g))"

lemma a_star_inv_entry:
  "a_star_inv start goal sz obstacles os gc \<Longrightarrow> e \<in> set os \<Longrightarrow> entry_ok start goal sz obstacles e"
  unfolding a_star_inv_def by blast

lemma a_star_inv_start: "a_star_inv start goal sz obstacles os gc \<Longrightarrow> gc start = Some 0"
  unfolding a_star_inv_def by blast

lemma a_star_inv_cover:
  "a_star_inv start goal sz obstacles os gc \<Longrightarrow> gc c = Some g \<Longrightarrow>
   (\<exists>f path. (f, g, c, path) \<in> set os) \<or> settled goal sz obstacles gc c g"
  unfolding a_star_inv_def by blast

lemma frontier:
  "a_star_inv start goal sz obstacles os gc \<Longrightarrow> walk sz obstacles p \<Longrightarrow> last p = goal
     \<Longrightarrow> gc (hd p) = Some g \<Longrightarrow> \<exists>e \<in> set os. fst e \<le> int g + int (length p) - 1"
proof (induction sz obstacles p arbitrary: g rule: walk.induct)
  case (1 sz obstacles)
  then show ?case by simp
next
  case (2 sz obstacles c)
  note inv = "2.prems"(1)
  from "2.prems" have c: "c = goal" and g: "gc c = Some g" by simp_all
  from a_star_inv_cover [OF inv g] c obtain f path where e: "(f, g, c, path) \<in> set os"
    by (auto simp: settled_def)
  from a_star_inv_entry [OF inv e] c have "f \<le> int g" by (simp add: entry_ok_def)
  with e show ?case by force
next
  case (3 sz obstacles c c' cs)
  note inv = "3.prems"(1)
  from "3.prems" have adj: "adjacent c c'" and fr: "free_cell sz obstacles c'"
    and w: "walk sz obstacles (c' # cs)" and l: "last (c' # cs) = goal" and g: "gc c = Some g"
    by simp_all
  from a_star_inv_cover [OF inv g] show ?case
  proof
    assume "\<exists>f path. (f, g, c, path) \<in> set os"
    then obtain f path where e: "(f, g, c, path) \<in> set os" by blast
    from a_star_inv_entry [OF inv e] have f: "f \<le> int g + heuristic c goal"
      by (simp add: entry_ok_def)
    from heuristic_walk [OF "3.prems"(2)] l have "heuristic c goal \<le> int (length (c # c' # cs)) - 1"
      by simp
    with f have "f \<le> int g + int (length (c # c' # cs)) - 1" by simp
    with e show ?thesis by force
  next
    assume "settled goal sz obstacles gc c g"
    with adj fr obtain g' where g': "gc c' = Some g'" "g' \<le> g + 1"
      unfolding settled_def by blast
    from "3.IH" [OF inv w l, of g'] g'(1) obtain e where e: "e \<in> set os"
      "fst e \<le> int g' + int (length (c' # cs)) - 1" by auto
    from e(2) g'(2) have "fst e \<le> int g + int (length (c # c' # cs)) - 1" by simp
    with e(1) show ?thesis by blast
  qed
qed

lemma heappop_min:
  assumes "os \<noteq> []" "heappop os = (e, os1)"
  shows "e \<in> set os" and "\<forall>e' \<in> set os. e \<le> e'" and "set os1 \<subseteq> set os"
    and "\<forall>e' \<in> set os. e' \<noteq> e \<longrightarrow> e' \<in> set os1"
proof -
  from assms(2) have e: "e = min_list os" and o: "os1 = remove1 e os"
    by (auto simp: heappop_def Let_def)
  show "e \<in> set os" unfolding e using assms(1) by (rule min_list_in)
  show "\<forall>e' \<in> set os. e \<le> e'" unfolding e using assms(1) by (simp add: min_list_le)
  show "set os1 \<subseteq> set os" unfolding o by (rule set_remove1_subset)
  show "\<forall>e' \<in> set os. e' \<noteq> e \<longrightarrow> e' \<in> set os1" unfolding o by simp
qed

lemma adjacent_delta:
  assumes "all_four ds"
  shows "adjacent c n \<longleftrightarrow> (\<exists>d \<in> set ds. n = (fst c + fst d, snd c + snd d))"
  using assms adjacent_iff [of "fst c" "snd c" n] unfolding all_four_def by simp

lemma a_star_inv_step:
  assumes inv: "a_star_inv start goal sz obstacles os gc"
    and ne: "os \<noteq> []"
    and pop: "heappop os = ((f, g, cur, path), os1)"
    and ng: "cur \<noteq> goal"
    and fold: "fold (a_star_relax goal sz obstacles g cur path) ds (os1, gc) = (os2, gc2)"
    and ds: "all_four ds"
  shows "a_star_inv start goal sz obstacles os2 gc2"
proof -
  note R = relaxed_fold [OF fold]
  note P = heappop_min [OF ne pop]
  have e0: "entry_ok start goal sz obstacles (f, g, cur, path)"
    using a_star_inv_entry [OF inv P(1)] .
  then have e0': "hd (path @ [cur]) = start" "walk sz obstacles (path @ [cur])" "length path = g"
    by (simp_all add: entry_ok_def)
  have I1: "\<forall>e \<in> set os2. entry_ok start goal sz obstacles e"
  proof
    fix e assume "e \<in> set os2"
    from relaxed_new [OF R this] show "entry_ok start goal sz obstacles e"
    proof
      assume "e \<in> set os1"
      with P(3) have "e \<in> set os" by blast
      then show ?thesis by (rule a_star_inv_entry [OF inv])
    next
      assume "\<exists>d \<in> set ds. e = (int (g + 1) + heuristic (fst cur + fst d, snd cur + snd d) goal,
                               g + 1, (fst cur + fst d, snd cur + snd d), path @ [cur])
                          \<and> free_cell sz obstacles (fst cur + fst d, snd cur + snd d)"
      then obtain d where d: "d \<in> set ds"
        and e: "e = (int (g + 1) + heuristic (fst cur + fst d, snd cur + snd d) goal,
                     g + 1, (fst cur + fst d, snd cur + snd d), path @ [cur])"
        and fr: "free_cell sz obstacles (fst cur + fst d, snd cur + snd d)" by blast
      let ?n = "(fst cur + fst d, snd cur + snd d)"
      from d have adj: "adjacent cur ?n" unfolding adjacent_delta [OF ds] by blast
      from walk_snoc [OF e0'(2) adj fr] have w: "walk sz obstacles ((path @ [cur]) @ [?n])" by simp
      have h: "hd ((path @ [cur]) @ [?n]) = start" using e0'(1) by (cases path) simp_all
      from w h e0'(3) show ?thesis unfolding e entry_ok_def by simp
    qed
  qed
  have I2: "gc2 start = Some 0"
    using relaxed_mono [OF R a_star_inv_start [OF inv]] by simp
  have mono: "\<And>c g0. gc c = Some g0 \<Longrightarrow> \<exists>g1. gc2 c = Some g1 \<and> g1 \<le> g0"
    by (rule relaxed_mono [OF R])
  have I3: "\<forall>c g'. gc2 c = Some g' \<longrightarrow>
            (\<exists>f path. (f, g', c, path) \<in> set os2) \<or> settled goal sz obstacles gc2 c g'"
  proof (intro allI impI)
    fix c g' assume g': "gc2 c = Some g'"
    from relaxed_changed [OF R, of c]
    show "(\<exists>f path. (f, g', c, path) \<in> set os2) \<or> settled goal sz obstacles gc2 c g'"
    proof
      assume same: "gc2 c = gc c"
      with g' have gc: "gc c = Some g'" by simp
      from a_star_inv_cover [OF inv gc] show ?thesis
      proof
        assume "\<exists>f path. (f, g', c, path) \<in> set os"
        then obtain f' path' where e: "(f', g', c, path') \<in> set os" by blast
        show ?thesis
        proof (cases "(f', g', c, path') = (f, g, cur, path)")
          case False
          with P(4) e have "(f', g', c, path') \<in> set os1" by blast
          with relaxed_sub [OF R] have "(f', g', c, path') \<in> set os2" by blast
          then show ?thesis by blast
        next
          case True
          then have c: "c = cur" "g' = g" by simp_all
          have "settled goal sz obstacles gc2 cur g"
            unfolding settled_def
          proof (intro conjI allI impI)
            show "cur \<noteq> goal" by (rule ng)
          next
            fix n assume a: "adjacent cur n \<and> free_cell sz obstacles n"
            then obtain d where d: "d \<in> set ds" "n = (fst cur + fst d, snd cur + snd d)"
              unfolding adjacent_delta [OF ds] by blast
            from relaxed_done [OF R d(1)] a d(2)
            show "\<exists>g'. gc2 n = Some g' \<and> g' \<le> g + 1" by simp
          qed
          with c show ?thesis by simp
        qed
      next
        assume s: "settled goal sz obstacles gc c g'"
        have "settled goal sz obstacles gc2 c g'"
          unfolding settled_def
        proof (intro conjI allI impI)
          show "c \<noteq> goal" using s by (simp add: settled_def)
        next
          fix n assume "adjacent c n \<and> free_cell sz obstacles n"
          with s obtain g1 where g1: "gc n = Some g1" "g1 \<le> g' + 1"
            unfolding settled_def by blast
          from mono [OF g1(1)] obtain g2 where "gc2 n = Some g2" "g2 \<le> g1" by blast
          with g1(2) show "\<exists>g''. gc2 n = Some g'' \<and> g'' \<le> g' + 1" by auto
        qed
        then show ?thesis by simp
      qed
    next
      assume "gc2 c = Some (g + 1) \<and> (int (g + 1) + heuristic c goal, g + 1, c, path @ [cur]) \<in> set os2"
      with g' show ?thesis by auto
    qed
  qed
  from I1 I2 I3 show ?thesis unfolding a_star_inv_def by blast
qed

lemma a_star_loop_step:
  assumes "os \<noteq> []" "heappop os = ((f, g, cur, path), os1)" "cur \<noteq> goal"
    "fold (a_star_relax goal sz obstacles g cur path) ds (os1, gc) = (os2, gc2)"
  shows "a_star_loop ds goal sz obstacles os gc = a_star_loop ds goal sz obstacles os2 gc2"
  by (subst a_star_loop.simps) (simp add: assms)

lemma a_star_loop_goal:
  assumes "os \<noteq> []" "heappop os = ((f, g, goal, path), os1)"
  shows "a_star_loop ds goal sz obstacles os gc = Some (path @ [goal])"
  by (subst a_star_loop.simps) (simp add: assms)

lemma a_star_loop_empty: "a_star_loop ds goal sz obstacles [] gc = None"
  by (subst a_star_loop.simps) simp

lemma a_star_loop_sound:
  assumes "all_four ds" "a_star_inv start goal sz obstacles os gc"
    "a_star_loop ds goal sz obstacles os gc = Some p"
  shows "path_between sz obstacles start goal p
         \<and> (\<forall>p'. path_between sz obstacles start goal p' \<longrightarrow> length p \<le> length p')"
  using assms
proof (induction ds goal sz obstacles os gc rule: a_star_loop.induct)
  case (1 ds goal sz obstacles os gc)
  note inv = "1.prems"(2)
  from "1.prems"(3) have ne: "os \<noteq> []" by (auto simp: a_star_loop_empty)
  obtain f g cur path os1 where pop: "heappop os = ((f, g, cur, path), os1)"
    by (metis prod.exhaust)
  note P = heappop_min [OF ne pop]
  show ?case
  proof (cases "cur = goal")
    case True
    with a_star_loop_goal [OF ne pop [unfolded True]] "1.prems"(3)
    have p: "p = path @ [goal]" by simp
    from a_star_inv_entry [OF inv P(1)] True
    have ok: "hd (path @ [goal]) = start" "walk sz obstacles (path @ [goal])" "length path = g" "int g \<le> f"
      by (simp_all add: entry_ok_def)
    then have pb: "path_between sz obstacles start goal p"
      unfolding p path_between_def by simp
    have "\<forall>p'. path_between sz obstacles start goal p' \<longrightarrow> length p \<le> length p'"
    proof (intro allI impI)
      fix p' assume "path_between sz obstacles start goal p'"
      then have p': "p' \<noteq> []" "hd p' = start" "last p' = goal" "walk sz obstacles p'"
        by (simp_all add: path_between_def)
      from a_star_inv_start [OF inv] p'(2) have "gc (hd p') = Some 0" by simp
      from frontier [OF inv p'(4) p'(3) this] obtain e where e: "e \<in> set os"
        "fst e \<le> int (length p') - 1" by auto
      from P(2) e(1) have "(f, g, cur, path) \<le> e" by blast
      then have "f \<le> fst e" by (cases e) (auto simp: less_eq_prod_def)
      with e(2) ok(4) have "int g \<le> int (length p') - 1" by linarith
      with ok(3) show "length p \<le> length p'" unfolding p by simp
    qed
    with pb show ?thesis by blast
  next
    case False
    obtain os2 gc2 where fold: "fold (a_star_relax goal sz obstacles g cur path) ds (os1, gc) = (os2, gc2)"
      by (metis prod.exhaust)
    from a_star_inv_step [OF inv ne pop False fold "1.prems"(1)]
    have inv2: "a_star_inv start goal sz obstacles os2 gc2" .
    from a_star_loop_step [OF ne pop False fold] "1.prems"(3)
    have r: "a_star_loop ds goal sz obstacles os2 gc2 = Some p" by simp
    from "1.IH" [OF ne pop [symmetric] refl refl refl False fold [symmetric] "1.prems"(1) inv2 r]
    show ?thesis .
  qed
qed

lemma a_star_loop_complete:
  assumes "all_four ds" "a_star_inv start goal sz obstacles os gc"
    "path_between sz obstacles start goal p'"
  shows "a_star_loop ds goal sz obstacles os gc \<noteq> None"
  using assms
proof (induction ds goal sz obstacles os gc rule: a_star_loop.induct)
  case (1 ds goal sz obstacles os gc)
  note inv = "1.prems"(2)
  from "1.prems"(3) have p': "p' \<noteq> []" "hd p' = start" "last p' = goal" "walk sz obstacles p'"
    by (simp_all add: path_between_def)
  from a_star_inv_start [OF inv] p'(2) have "gc (hd p') = Some 0" by simp
  from frontier [OF inv p'(4) p'(3) this] have ne: "os \<noteq> []" by auto
  obtain f g cur path os1 where pop: "heappop os = ((f, g, cur, path), os1)"
    by (metis prod.exhaust)
  show ?case
  proof (cases "cur = goal")
    case True
    with a_star_loop_goal [OF ne pop [unfolded True]] show ?thesis by simp
  next
    case False
    obtain os2 gc2 where fold: "fold (a_star_relax goal sz obstacles g cur path) ds (os1, gc) = (os2, gc2)"
      by (metis prod.exhaust)
    from a_star_inv_step [OF inv ne pop False fold "1.prems"(1)]
    have inv2: "a_star_inv start goal sz obstacles os2 gc2" .
    from "1.IH" [OF ne pop [symmetric] refl refl refl False fold [symmetric] "1.prems"(1) inv2 "1.prems"(3)]
      a_star_loop_step [OF ne pop False fold]
    show ?thesis by simp
  qed
qed

lemma a_star_inv_init:
  "a_star_inv start goal sz obstacles [(0, 0, start, [])] [start \<mapsto> 0]"
  unfolding a_star_inv_def entry_ok_def by (auto split: if_splits)

lemma a_star_search_obstacles:
  "a_star_search start goal sz body
     = a_star_loop (Direction_values path_planning) goal sz (set body - {goal} - {start})
         [(0, 0, start, [])] [start \<mapsto> 0]"
proof -
  have eq: "(if start \<in> (if goal \<in> set body then set body - {goal} else set body)
         then (if goal \<in> set body then set body - {goal} else set body) - {start}
         else (if goal \<in> set body then set body - {goal} else set body))
        = set body - {goal} - {start}"
    by auto
  show ?thesis unfolding a_star_search_def Let_def eq by (rule refl)
qed

lemma a_star_search_start_is_goal: "a_star_search start start sz body = Some [start]"
  unfolding a_star_search_def Let_def
  by (subst a_star_loop.simps) (simp add: heappop_def)

lemma find_no_safe: "filter P xs = [] \<Longrightarrow> find P xs = None"
  by (induction xs) (auto split: if_splits)

section \<open>Correctness of the path search\<close>

lemma path_visit_cases:
  assumes "path_visit sz obstacles c path (dx, dy) (q, visited) = (q', visited')"
  shows "(free_cell sz obstacles (fst c + dx, snd c + dy) \<and> (fst c + dx, snd c + dy) \<notin> visited
            \<and> q' = q @ [((fst c + dx, snd c + dy), path @ [(fst c + dx, snd c + dy)])]
            \<and> visited' = insert (fst c + dx, snd c + dy) visited)
         \<or> (\<not> (free_cell sz obstacles (fst c + dx, snd c + dy) \<and> (fst c + dx, snd c + dy) \<notin> visited)
            \<and> q' = q \<and> visited' = visited)"
  using assms by (auto simp: path_visit_def free_cell_def Let_def split: if_splits)

lemma path_fold_result:
  assumes "fold (path_visit sz obstacles c path) ds (q, visited) = (q', visited')"
  shows "\<exists>new. q' = q @ new \<and> visited' = visited \<union> fst ` set new
           \<and> fst ` set new \<inter> visited = {}
           \<and> (\<forall>n \<in> fst ` set new. free_cell sz obstacles n
                 \<and> (\<exists>d \<in> set ds. n = (fst c + fst d, snd c + snd d)))
           \<and> (\<forall>d \<in> set ds. free_cell sz obstacles (fst c + fst d, snd c + snd d)
                 \<longrightarrow> (fst c + fst d, snd c + snd d) \<in> visited')"
  using assms
proof (induction ds arbitrary: q visited)
  case Nil
  then show ?case by simp
next
  case (Cons d ds)
  obtain dx dy where d: "d = (dx, dy)" by (cases d)
  let ?n = "(fst c + dx, snd c + dy)"
  obtain q1 v1 where s: "path_visit sz obstacles c path (dx, dy) (q, visited) = (q1, v1)"
    by (cases "path_visit sz obstacles c path (dx, dy) (q, visited)")
  from Cons.prems s d have f: "fold (path_visit sz obstacles c path) ds (q1, v1) = (q', visited')"
    by simp
  from Cons.IH [OF f] obtain new where new:
    "q' = q1 @ new" "visited' = v1 \<union> fst ` set new" "fst ` set new \<inter> v1 = {}"
    "\<forall>n \<in> fst ` set new. free_cell sz obstacles n
        \<and> (\<exists>d \<in> set ds. n = (fst c + fst d, snd c + snd d))"
    "\<forall>d \<in> set ds. free_cell sz obstacles (fst c + fst d, snd c + snd d)
        \<longrightarrow> (fst c + fst d, snd c + snd d) \<in> visited'"
    by blast
  from path_visit_cases [OF s] show ?case
  proof (elim disjE conjE)
    assume a: "free_cell sz obstacles ?n" "?n \<notin> visited"
      "q1 = q @ [(?n, path @ [?n])]" "v1 = insert ?n visited"
    show ?thesis
      apply (rule exI [of _ "(?n, path @ [?n]) # new"])
      using a new d by auto
  next
    assume a: "\<not> (free_cell sz obstacles ?n \<and> ?n \<notin> visited)" "q1 = q" "v1 = visited"
    show ?thesis
      apply (rule exI [of _ new])
      using a new d by auto
  qed
qed

text \<open>
  The invariant of the \<open>while q:\<close> loop of \<open>has_path_to_target_bfs\<close>: the visited cells lie in
  the flood fill of the start and hold the start and every queued cell; a visited cell that
  is no longer queued is not the target, and all its free neighbours are visited.
\<close>

definition path_inv ::
  "cell \<Rightarrow> cell \<Rightarrow> int \<Rightarrow> cell set \<Rightarrow> (cell \<times> cell list) list \<Rightarrow> cell set \<Rightarrow> bool" where
  "path_inv start target sz obstacles q visited =
     (visited \<subseteq> flood_fill_reference start sz obstacles
      \<and> start \<in> visited
      \<and> fst ` set q \<subseteq> visited
      \<and> (\<forall>c \<in> visited. c \<notin> fst ` set q \<longrightarrow>
            c \<noteq> target \<and> (\<forall>n. adjacent c n \<and> free_cell sz obstacles n \<longrightarrow> n \<in> visited)))"

lemma path_inv_step:
  assumes inv: "path_inv start target sz obstacles ((c, path) # q) visited"
    and ds: "all_four ds"
    and nt: "c \<noteq> target"
    and f: "fold (path_visit sz obstacles c path) ds (q, visited) = (q', visited')"
  shows "path_inv start target sz obstacles q' visited'"
proof -
  from path_fold_result [OF f] obtain new where new:
    "q' = q @ new" "visited' = visited \<union> fst ` set new" "fst ` set new \<inter> visited = {}"
    "\<forall>n \<in> fst ` set new. free_cell sz obstacles n
        \<and> (\<exists>d \<in> set ds. n = (fst c + fst d, snd c + snd d))"
    "\<forall>d \<in> set ds. free_cell sz obstacles (fst c + fst d, snd c + snd d)
        \<longrightarrow> (fst c + fst d, snd c + snd d) \<in> visited'"
    by blast
  from inv have i: "visited \<subseteq> flood_fill_reference start sz obstacles" "start \<in> visited"
    "fst ` set ((c, path) # q) \<subseteq> visited"
    "\<forall>x \<in> visited. x \<notin> fst ` set ((c, path) # q) \<longrightarrow>
       x \<noteq> target \<and> (\<forall>n. adjacent x n \<and> free_cell sz obstacles n \<longrightarrow> n \<in> visited)"
    unfolding path_inv_def by blast+
  have cv: "c \<in> visited" using i(3) by simp
  then have cf: "c \<in> flood_fill_reference start sz obstacles" using i(1) by blast
  have 1: "visited' \<subseteq> flood_fill_reference start sz obstacles"
  proof
    fix x assume "x \<in> visited'"
    then consider "x \<in> visited" | "x \<in> fst ` set new" using new(2) by blast
    then show "x \<in> flood_fill_reference start sz obstacles"
    proof cases
      case 1 then show ?thesis using i(1) by blast
    next
      case 2
      with new(4) obtain d where fr: "free_cell sz obstacles x" and d: "d \<in> set ds"
        "x = (fst c + fst d, snd c + snd d)" by blast
      from d have "adjacent c x" unfolding adjacent_delta [OF ds] by blast
      from flood_step [OF cf this fr] show ?thesis .
    qed
  qed
  have 2: "start \<in> visited'" using i(2) new(2) by simp
  have 3: "fst ` set q' \<subseteq> visited'" using i(3) new(1,2) by auto
  have 4: "\<forall>x \<in> visited'. x \<notin> fst ` set q' \<longrightarrow>
       x \<noteq> target \<and> (\<forall>n. adjacent x n \<and> free_cell sz obstacles n \<longrightarrow> n \<in> visited')"
  proof (intro ballI impI)
    fix x assume x: "x \<in> visited'" and nq: "x \<notin> fst ` set q'"
    from nq new(1) have nq1: "x \<notin> fst ` set q" and nn: "x \<notin> fst ` set new" by auto
    with x new(2) have xv: "x \<in> visited" by blast
    show "x \<noteq> target \<and> (\<forall>n. adjacent x n \<and> free_cell sz obstacles n \<longrightarrow> n \<in> visited')"
    proof (cases "x = c")
      case True
      have "\<forall>n. adjacent c n \<and> free_cell sz obstacles n \<longrightarrow> n \<in> visited'"
      proof (intro allI impI)
        fix n assume a: "adjacent c n \<and> free_cell sz obstacles n"
        then obtain d where d: "d \<in> set ds" "n = (fst c + fst d, snd c + snd d)"
          unfolding adjacent_delta [OF ds] by blast
        with new(5) a show "n \<in> visited'" by blast
      qed
      with True nt show ?thesis by simp
    next
      case False
      with nq1 have "x \<notin> fst ` set ((c, path) # q)" by simp
      with i(4) xv have "x \<noteq> target"
        and "\<forall>n. adjacent x n \<and> free_cell sz obstacles n \<longrightarrow> n \<in> visited" by blast+
      with new(2) show ?thesis by blast
    qed
  qed
  from 1 2 3 4 show ?thesis unfolding path_inv_def by blast
qed

lemma path_loop_correct:
  "all_four ds \<Longrightarrow> path_inv start target sz obstacles q visited \<Longrightarrow>
   path_loop ds target sz obstacles q visited = (target \<in> flood_fill_reference start sz obstacles)"
proof (induction ds target sz obstacles q visited rule: path_loop.induct)
  case (1 ds target sz obstacles visited)
  from "1.prems"(2) have i: "visited \<subseteq> flood_fill_reference start sz obstacles" "start \<in> visited"
    "\<forall>x \<in> visited. x \<noteq> target \<and> (\<forall>n. adjacent x n \<and> free_cell sz obstacles n \<longrightarrow> n \<in> visited)"
    unfolding path_inv_def by simp_all
  from i(3) have cl: "\<forall>c \<in> visited. \<forall>c'. adjacent c c' \<and> free_cell sz obstacles c' \<longrightarrow> c' \<in> visited"
    by blast
  have "target \<notin> flood_fill_reference start sz obstacles"
  proof
    assume "target \<in> flood_fill_reference start sz obstacles"
    from flood_fill_reference_closed [OF i(2) cl this] i(3) show False by blast
  qed
  then show ?case by simp
next
  case (2 ds target sz obstacles c path q visited)
  note inv = "2.prems"(2)
  show ?case
  proof (cases "c = target")
    case True
    from inv have "c \<in> flood_fill_reference start sz obstacles"
      unfolding path_inv_def by auto
    with True show ?thesis by simp
  next
    case False
    obtain q' visited' where f: "fold (path_visit sz obstacles c path) ds (q, visited) = (q', visited')"
      by (cases "fold (path_visit sz obstacles c path) ds (q, visited)")
    from path_inv_step [OF inv "2.prems"(1) False f]
    have "path_inv start target sz obstacles q' visited'" .
    from "2.IH" [OF False f [symmetric] "2.prems"(1) this] False f show ?thesis by simp
  qed
qed

lemma path_inv_init: "path_inv start target sz obstacles [(start, path)] {start}"
  unfolding path_inv_def by (auto intro: flood_start)

lemma has_path_to_target_bfs_obstacles:
  "has_path_to_target_bfs m start target sz body
     = path_loop (Direction_values m) target sz (set body - {target} - {start}) [(start, [])] {start}"
proof -
  have eq: "(if start \<in> (if target \<in> set body then set body - {target} else set body)
         then (if target \<in> set body then set body - {target} else set body) - {start}
         else (if target \<in> set body then set body - {target} else set body))
        = set body - {target} - {start}"
    by auto
  show ?thesis unfolding has_path_to_target_bfs_def Let_def eq by (rule refl)
qed

lemma has_path_to_target_bfs_flood_fill:
  "has_path_to_target_bfs m start target sz body
     = (target \<in> flood_fill_reference start sz (set body - {target} - {start}))"
  unfolding has_path_to_target_bfs_obstacles
  by (rule path_loop_correct [OF all_four_Direction_values path_inv_init])

lemma flood_fill_reference_free:
  "x \<in> flood_fill_reference start sz obstacles \<Longrightarrow> x = start \<or> free_cell sz obstacles x"
  by (induction rule: flood_fill_reference.induct) simp_all

lemma has_path_to_target_bfs_goal_outside:
  assumes "target \<notin> board sz" "start \<noteq> target"
  shows "\<not> has_path_to_target_bfs m start target sz body"
  using assms flood_fill_reference_free [of target start sz "set body - {target} - {start}"]
  unfolding has_path_to_target_bfs_flood_fill by (auto simp: free_cell_board)

section \<open>Degenerate boards\<close>

text \<open>
  On a board of non-positive size no cell is in bounds: no search leaves its start, and
  every cell is a collision.
\<close>

lemma fold_fixed: "(\<And>d. f d s = s) \<Longrightarrow> fold f ds s = s"
  by (induction ds) simp_all

lemma bfs_visit_no_board: "sz \<le> 0 \<Longrightarrow> bfs_visit sz obstacles c d s = s"
  by (cases s; cases c; cases d) (auto simp: bfs_visit_def Let_def)

lemma path_visit_no_board: "sz \<le> 0 \<Longrightarrow> path_visit sz obstacles c path d s = s"
  by (cases s; cases d) (auto simp: path_visit_def Let_def)

lemma a_star_relax_no_board: "sz \<le> 0 \<Longrightarrow> a_star_relax goal sz obstacles g c path d s = s"
  by (cases s; cases d) (auto simp: a_star_relax_def Let_def)

lemma find_reachable_areas_bfs_no_board:
  "sz \<le> 0 \<Longrightarrow> find_reachable_areas_bfs m start sz body food = (1, [start])"
  by (simp add: find_reachable_areas_bfs_def Let_def fold_fixed bfs_visit_no_board)

lemma has_path_to_target_bfs_no_board:
  "sz \<le> 0 \<Longrightarrow> has_path_to_target_bfs m start goal sz body = (start = goal)"
  by (simp add: has_path_to_target_bfs_def Let_def fold_fixed path_visit_no_board)

lemma heappop_single: "heappop [e] = (e, [])"
  by (simp add: heappop_def)

lemma a_star_search_no_board:
  assumes "sz \<le> 0"
  shows "a_star_search start goal sz body = (if start = goal then Some [start] else None)"
proof (cases "start = goal")
  case True
  then show ?thesis by (simp add: a_star_search_start_is_goal)
next
  case False
  have "a_star_loop (Direction_values path_planning) goal sz (set body - {goal} - {start})
         [(0, 0, start, [])] [start \<mapsto> 0]
        = a_star_loop (Direction_values path_planning) goal sz (set body - {goal} - {start})
         [] [start \<mapsto> 0]"
    by (rule a_star_loop_step [OF _ heappop_single False])
       (simp_all add: fold_fixed a_star_relax_no_board assms)
  with False show ?thesis
    by (simp add: a_star_search_obstacles a_star_loop_empty)
qed

lemma walk_last_free:
  "walk sz obstacles p \<Longrightarrow> 2 \<le> length p \<Longrightarrow> free_cell sz obstacles (last p)"
proof (induction sz obstacles p rule: walk.induct)
  case (3 sz obstacles c c' cs)
  show ?case
  proof (cases cs)
    case Nil
    with "3.prems" show ?thesis by simp
  next
    case (Cons a as)
    with "3.prems" "3.IH" show ?thesis by simp
  qed
qed simp_all

lemma a_star_search_goal_outside:
  assumes "goal \<notin> board sz" "start \<noteq> goal"
  shows "a_star_search start goal sz body = None"
proof (cases "a_star_search start goal sz body")
  case None
  then show ?thesis .
next
  case (Some p)
  let ?obs = "set body - {goal} - {start}"
  from Some a_star_loop_sound [OF all_four_Direction_values a_star_inv_init, of path_planning goal sz ?obs start p]
  have "path_between sz ?obs start goal p" by (simp add: a_star_search_obstacles)
  then have p: "p \<noteq> []" "hd p = start" "last p = goal" "walk sz ?obs p"
    by (simp_all add: path_between_def)
  have "2 \<le> length p"
  proof (rule ccontr)
    assume n: "\<not> 2 \<le> length p"
    show False
    proof (cases p)
      case Nil
      with p(1) show False by simp
    next
      case (Cons c cs)
      with n have "cs = []" by (cases cs) simp_all
      with Cons p(2,3) assms(2) show False by simp
    qed
  qed
  from walk_last_free [OF p(4) this] p(3) assms(1) show ?thesis
    by (simp add: free_cell_board)
qed

lemma get_safe_actions_no_board: "board_size self \<le> 0 \<Longrightarrow> get_safe_actions self head body = []"
  by (auto simp: get_safe_actions_def is_collision_def Let_def split: prod.splits)

lemma is_collision_no_board: "sz \<le> 0 \<Longrightarrow> is_collision pos sz body"
  by (cases pos) (auto simp: is_collision_def)

lemma calculate_action_cost_no_board:
  "sz \<le> 0 \<Longrightarrow> calculate_action_cost head cur action body food sz is_collision astar isolated reach
     = Inr Infinity"
  by (simp add: calculate_action_cost_def is_collision_no_board Let_def split: prod.splits)

lemma choose_best_action_no_board:
  assumes "sz \<le> 0"
  shows "choose_best_action \<lparr>board_size = sz\<rparr> head cur body food
       = ([''WARNING: No safe actions found. Game likely over or trapped.''], Inr cur)"
proof -
  from assms have g: "get_safe_actions \<lparr>board_size = sz\<rparr> head body = []"
    by (simp add: get_safe_actions_no_board)
  note f = find_no_safe [OF g [unfolded get_safe_actions_def]]
  show ?thesis unfolding choose_best_action_def Let_def g using f by simp
qed

section \<open>Verified properties\<close>

text \<open>
  C7. For every board size and every body, \<open>is_collision pos sz body\<close> is true exactly
  when \<open>pos\<close> lies outside the square \<open>[0,sz) \<times> [0,sz)\<close> or \<open>pos\<close> occurs in the body
  without its last element (the tail); in particular it is true for every cell outside the
  square, whatever the body and the board size.
\<close>

theorem is_collision_iff:
  "(is_collision (x, y) sz body \<longleftrightarrow>
      (x < 0 \<or> sz \<le> x \<or> y < 0 \<or> sz \<le> y) \<or> (x, y) \<in> set (butlast body))
   \<and> ((x < 0 \<or> sz \<le> x \<or> y < 0 \<or> sz \<le> y) \<longrightarrow> is_collision (x, y) sz body)"
  by (auto simp: is_collision_def)

theorem is_collision_iff_witness:
  "is_collision (10, 5) 10 [(5, 5), (5, 6), (5, 7)]
   \<and> is_collision (5, 6) 10 [(5, 5), (5, 6), (5, 7)]
   \<and> \<not> is_collision (5, 7) 10 [(5, 5), (5, 6), (5, 7)]"
  using is_collision_iff [of 10 5 10 "[(5, 5), (5, 6), (5, 7)]"]
    is_collision_iff [of 5 6 10 "[(5, 5), (5, 6), (5, 7)]"]
    is_collision_iff [of 5 7 10 "[(5, 5), (5, 6), (5, 7)]"]
  by simp

text \<open>
  C1. For every head, current direction, proposed action, body, food position and board
  size, \<open>calculate_action_cost\<close> returns \<open>+infinity\<close> if and only if \<open>is_collision\<close> holds of
  the next head \<open>head + delta(proposed_action)\<close>; the collision test comes first and decides
  alone: when it holds the result is \<open>+infinity\<close> whatever the search, isolation and
  reachability functions passed in are, and nothing else produces \<open>+infinity\<close>.
\<close>

theorem calculate_action_cost_infinity_iff:
  "(calculate_action_cost current_head current_direction proposed_action snake_body food_position sz
      is_collision a_star_search is_future_isolated (find_reachable_areas_bfs state_perception)
      = Inr Infinity
    \<longleftrightarrow> is_collision (fst current_head + fst (dir_value proposed_action),
                      snd current_head + snd (dir_value proposed_action)) sz snake_body)
   \<and> (is_collision (fst current_head + fst (dir_value proposed_action),
                      snd current_head + snd (dir_value proposed_action)) sz snake_body
      \<longrightarrow> (\<forall>astar isolated reach.
            calculate_action_cost current_head current_direction proposed_action snake_body
              food_position sz is_collision astar isolated reach = Inr Infinity))"
  by (simp add: calculate_action_cost_def Let_def split: prod.splits)

theorem calculate_action_cost_infinity_iff_witness:
  "calculate_action_cost (0, 0) (snake_env, UP) (snake_env, UP) [(0, 0), (0, 1)] (5, 5) 10
      is_collision a_star_search is_future_isolated (find_reachable_areas_bfs state_perception)
      = Inr Infinity
   \<and> is_collision (0, -1) 10 [(0, 0), (0, 1)]"
  using calculate_action_cost_infinity_iff [of "(0, 0)" "(snake_env, UP)" "(snake_env, UP)"
      "[(0, 0), (0, 1)]" "(5, 5)" 10]
  by (simp add: dir_value_def is_collision_def)

text \<open>
  C3. For every input whose next head is no collision, \<open>calculate_action_cost\<close> evaluates
  the name \<open>deque\<close>, which \<open>cost_function.py\<close> neither imports nor defines, and fails with
  \<open>NameError\<close> instead of returning a cost; no input makes it return a finite cost. (The
  searches called before line 92 are total functions, so the failure is reached.)
\<close>

theorem calculate_action_cost_name_error:
  "(\<not> is_collision (fst current_head + fst (dir_value proposed_action),
                      snd current_head + snd (dir_value proposed_action)) sz snake_body
      \<longrightarrow> calculate_action_cost current_head current_direction proposed_action snake_body
            food_position sz is_collision a_star_search is_future_isolated
            (find_reachable_areas_bfs state_perception) = Inl (NameError ''deque''))
   \<and> (\<forall>c. calculate_action_cost current_head current_direction proposed_action snake_body
            food_position sz is_collision a_star_search is_future_isolated
            (find_reachable_areas_bfs state_perception) \<noteq> Inr (Finite c))"
  by (simp add: calculate_action_cost_def Let_def split: prod.splits)

theorem calculate_action_cost_name_error_witness:
  "\<not> is_collision (5, 4) 10 [(5, 5), (5, 6)]
   \<and> calculate_action_cost (5, 5) (snake_env, UP) (snake_env, UP) [(5, 5), (5, 6)] (5, 3) 10
        is_collision a_star_search is_future_isolated (find_reachable_areas_bfs state_perception)
      = Inl (NameError ''deque'')"
  using calculate_action_cost_name_error [of "(5, 5)" "(snake_env, UP)" 10 "[(5, 5), (5, 6)]"
      "(snake_env, UP)" "(5, 3)"]
  by (simp add: dir_value_def is_collision_def)

text \<open>
  The turn term on the members of the class \<open>Direction\<close> of \<open>cost_function.py\<close> itself, and on
  the members of any other module's class: there the table of opposites has no entry, and a
  reversal costs what a perpendicular turn costs.
\<close>

lemma turn_term_own_class:
  "turn_term (cost_function, a) (cost_function, b) =
     (if a = b then 0
      else if (a, b) \<in> {(UP, DOWN), (DOWN, UP), (LEFT, RIGHT), (RIGHT, LEFT)} then 5000000
      else 5)"
  by (cases a; cases b) (simp_all add: turn_term_def turn_cost_def opposite_directions_def)

lemma turn_term_other_class:
  "m \<noteq> cost_function \<Longrightarrow> turn_term (m, a) (m, b) = (if a = b then 0 else 5)"
  by (cases a; cases b) (simp_all add: turn_term_def turn_cost_def opposite_directions_def)

text \<open>
  C5. The claim: the turn term is 0 for the same direction, 5 for a perpendicular one and at
  least 1,000,000 for the opposite one. On the directions the program passes, the members of
  the class \<open>Direction\<close> of \<open>snake_env.py\<close> (in \<open>policy_agent.py\<close> and in the test block of
  \<open>cost_function.py\<close>, line 127), \<open>turn_cost\<close> of a reversal is 1 and the turn term is 5.
\<close>

theorem turn_term_reversal_snake_env:
  "turn_cost (snake_env, UP) (snake_env, DOWN) = 1
   \<and> turn_term (snake_env, UP) (snake_env, DOWN) = 5
   \<and> turn_term (snake_env, DOWN) (snake_env, UP) = 5
   \<and> turn_term (snake_env, LEFT) (snake_env, RIGHT) = 5
   \<and> turn_term (snake_env, RIGHT) (snake_env, LEFT) = 5"
  by (simp add: turn_term_def turn_cost_def opposite_directions_def)

text \<open>
  C6. The claim: on a board of size 10 with body \<open>[(1,1),(1,2)]\<close>, current direction LEFT,
  food at \<open>(0,1)\<close> and candidate LEFT, \<open>calculate_action_cost\<close> returns -99. The next head
  \<open>(0,1)\<close> is no collision, the path found is \<open>[(0,1)]\<close> and the cost after the path term is
  -99, but the call then fails with \<open>NameError\<close> at line 92 and returns nothing.
\<close>

theorem calculate_action_cost_food_scenario:
  "calculate_action_cost (1, 1) (snake_env, LEFT) (snake_env, LEFT) [(1, 1), (1, 2)] (0, 1) 10
      is_collision a_star_search is_future_isolated (find_reachable_areas_bfs state_perception)
     = Inl (NameError ''deque'')
   \<and> \<not> is_collision (0, 1) 10 [(1, 1), (1, 2)]
   \<and> cost_after_path_term (snake_env, LEFT) (snake_env, LEFT)
        (a_star_search (0, 1) (0, 1) 10 [(1, 1), (1, 2)]) = -99"
  by (simp add: calculate_action_cost_def dir_value_def is_collision_def
      a_star_search_start_is_goal cost_after_path_term_def turn_term_def turn_cost_def truthy_def)

text \<open>
  C8. Whenever no direction's next cell passes \<open>is_collision\<close> (\<open>get_safe_actions\<close> is empty),
  \<open>choose_best_action\<close> prints its warning, returns the current direction unchanged and
  raises nothing.
\<close>

theorem choose_best_action_no_safe_action:
  assumes "get_safe_actions self current_head snake_body = []"
  shows "choose_best_action self current_head current_direction snake_body food_position
           = ([''WARNING: No safe actions found. Game likely over or trapped.''],
              Inr current_direction)"
proof -
  from assms have "find (\<lambda>action.
       case dir_value action of (dx, dy) \<Rightarrow>
         let next_head = (fst current_head + dx, snd current_head + dy)
         in \<not> is_collision next_head (board_size self) snake_body)
      (Direction_members snake_env) = None"
    unfolding get_safe_actions_def by (rule find_no_safe)
  with assms show ?thesis by (simp add: choose_best_action_def)
qed

theorem choose_best_action_no_safe_action_witness:
  "get_safe_actions \<lparr>board_size = 10\<rparr> (0, 0) [(0, 0), (1, 0), (1, 1), (0, 1), (0, 2)] = []
   \<and> choose_best_action \<lparr>board_size = 10\<rparr> (0, 0) (snake_env, LEFT)
        [(0, 0), (1, 0), (1, 1), (0, 1), (0, 2)] (5, 5)
      = ([''WARNING: No safe actions found. Game likely over or trapped.''],
         Inr (snake_env, LEFT))"
proof -
  have h: "get_safe_actions \<lparr>board_size = 10\<rparr> (0, 0) [(0, 0), (1, 0), (1, 1), (0, 1), (0, 2)] = []"
    by (simp add: get_safe_actions_def Direction_members_def dir_value_def is_collision_def)
  from h choose_best_action_no_safe_action [OF h] show ?thesis by simp
qed

text \<open>
  C9. Whenever the start is the target, \<open>has_path_to_target_bfs\<close> returns true at once, for
  every board size and body; the loop returns true the moment the cell it takes from the
  queue is the target, whatever else the queue and the visited set hold; and both the start
  and the target are exempt from the obstacles: the result is whether the target lies in the
  flood fill of the start over the body's cells less the target and the start, so it is the
  same when the start and the target are taken out of the body beforehand.
\<close>

theorem has_path_to_target_bfs_trivial:
  "has_path_to_target_bfs m start_pos start_pos sz snake_body
   \<and> path_loop ds target_pos sz obstacles ((target_pos, path) # q) visited
   \<and> has_path_to_target_bfs m start_pos target_pos sz snake_body
       = (target_pos \<in> flood_fill_reference start_pos sz (set snake_body - {target_pos} - {start_pos}))
   \<and> has_path_to_target_bfs m start_pos target_pos sz snake_body
       = has_path_to_target_bfs m start_pos target_pos sz
           (filter (\<lambda>c. c \<noteq> start_pos \<and> c \<noteq> target_pos) snake_body)"
proof -
  have 1: "has_path_to_target_bfs m start_pos start_pos sz snake_body"
    by (simp add: has_path_to_target_bfs_def)
  have 2: "path_loop ds target_pos sz obstacles ((target_pos, path) # q) visited"
    by simp
  have s: "set (filter (\<lambda>c. c \<noteq> start_pos \<and> c \<noteq> target_pos) snake_body) - {target_pos} - {start_pos}
      = set snake_body - {target_pos} - {start_pos}"
    by auto
  have 4: "has_path_to_target_bfs m start_pos target_pos sz snake_body
       = has_path_to_target_bfs m start_pos target_pos sz
           (filter (\<lambda>c. c \<noteq> start_pos \<and> c \<noteq> target_pos) snake_body)"
    unfolding has_path_to_target_bfs_flood_fill s by (rule refl)
  from 1 2 has_path_to_target_bfs_flood_fill 4 show ?thesis by blast
qed

theorem has_path_to_target_bfs_trivial_witness:
  "has_path_to_target_bfs state_perception (1, 1) (1, 3) 4 [(1, 1), (1, 2), (1, 3)]
   \<and> (1, 3) \<in> flood_fill_reference (1, 1) 4 (set [(1, 1), (1, 2), (1, 3)] - {(1, 3)} - {(1, 1)})
   \<and> has_path_to_target_bfs state_perception (1, 1) (1, 3) 4
        (filter (\<lambda>c. c \<noteq> (1, 1) \<and> c \<noteq> (1, 3)) [(1, 1), (1, 2), (1, 3)])
   \<and> has_path_to_target_bfs safety_logic (2, 2) (2, 2) 3 [(2, 2)]"
proof -
  have e: "has_path_to_target_bfs state_perception (1, 1) (1, 3) 4 [(1, 1), (1, 2), (1, 3)]"
    by code_simp
  note t = has_path_to_target_bfs_trivial [of state_perception "(1, 1)" 4 "[(1, 1), (1, 2), (1, 3)]"
      "[]" "(1, 3)" "{}" "[]" "[]" "{}"]
  from t e have f: "(1, 3) \<in> flood_fill_reference (1, 1) 4
      (set [(1, 1), (1, 2), (1, 3)] - {(1, 3)} - {(1, 1)})"
    by blast
  from t e have g: "has_path_to_target_bfs state_perception (1, 1) (1, 3) 4
        (filter (\<lambda>c. c \<noteq> (1, 1) \<and> c \<noteq> (1, 3)) [(1, 1), (1, 2), (1, 3)])"
    by blast
  from has_path_to_target_bfs_trivial [of safety_logic "(2, 2)" 3 "[(2, 2)]" "[]" "(2, 2)" "{}" "[]"
      "[]" "{}"]
  have h: "has_path_to_target_bfs safety_logic (2, 2) (2, 2) 3 [(2, 2)]"
    by blast
  from e f g h show ?thesis by (intro conjI)
qed

text \<open>
  C4. For every start cell, board size, body and food position, the count returned by
  \<open>find_reachable_areas_bfs\<close> (either copy) is the number of cells of the flood-fill
  reference over in-bounds, 4-connected, non-obstacle cells, the obstacles being the body's
  cells without the food cell, and the start counted; the cells returned are exactly the
  cells of the reference; and count and cell set are the same for every order in which the
  four directions are tried.
\<close>

theorem find_reachable_areas_bfs_flood_fill:
  "fst (find_reachable_areas_bfs m start sz body food) = card (flood_fill_reference start sz (set body - {food}))
   \<and> set (snd (find_reachable_areas_bfs m start sz body food)) = flood_fill_reference start sz (set body - {food})
   \<and> (\<forall>ds. all_four ds \<longrightarrow>
         fst (bfs_loop ds sz (set body - {food}) [start] {start} 0 [])
           = fst (find_reachable_areas_bfs m start sz body food)
       \<and> set (snd (bfs_loop ds sz (set body - {food}) [start] {start} 0 []))
           = set (snd (find_reachable_areas_bfs m start sz body food)))"
proof -
  have inv: "bfs_inv start sz (set body - {food}) [start] {start} 0 []"
    by (auto simp: bfs_inv_def intro: flood_start)
  have eq: "find_reachable_areas_bfs m start sz body food
      = bfs_loop (Direction_values m) sz (set body - {food}) [start] {start} 0 []"
    by (simp add: find_reachable_areas_bfs_def Let_def)
  show ?thesis
    unfolding eq
    using bfs_loop_correct [OF all_four_Direction_values inv, of m]
      bfs_loop_correct [OF _ inv]
    by simp
qed


theorem find_reachable_areas_bfs_flood_fill_witness:
  "all_four [(1, 0), (-1, 0), (0, 1), (0, -1)]
   \<and> fst (find_reachable_areas_bfs state_perception (0, 0) 2 [(0, 0), (0, 1)] (5, 5)) = 3
   \<and> card (flood_fill_reference (0, 0) 2 (set [(0, 0), (0, 1)] - {(5, 5)})) = 3
   \<and> fst (bfs_loop [(1, 0), (-1, 0), (0, 1), (0, -1)] 2 (set [(0, 0), (0, 1)] - {(5, 5)})
          [(0, 0)] {(0, 0)} 0 []) = 3"
proof -
  have a: "all_four [(1, 0), (-1, 0), (0, 1), (0, -1)]"
    by (auto simp: all_four_def)
  have e: "find_reachable_areas_bfs state_perception (0, 0) 2 [(0, 0), (0, 1)] (5, 5)
      = (3, [(0, 0), (1, 0), (1, 1)])"
    by (simp add: find_reachable_areas_bfs_def Direction_values_def Direction_members_def
        dir_value_def bfs_visit_def Let_def)
  note t = find_reachable_areas_bfs_flood_fill
    [of state_perception "(0, 0)" 2 "[(0, 0), (0, 1)]" "(5, 5)"]
  from e have f3: "fst (find_reachable_areas_bfs state_perception (0, 0) 2 [(0, 0), (0, 1)] (5, 5)) = 3"
    by (simp only: fst_conv)
  from t have c: "fst (find_reachable_areas_bfs state_perception (0, 0) 2 [(0, 0), (0, 1)] (5, 5))
      = card (flood_fill_reference (0, 0) 2 (set [(0, 0), (0, 1)] - {(5, 5)}))"
    by (rule conjunct1)
  from t a have o: "fst (bfs_loop [(1, 0), (-1, 0), (0, 1), (0, -1)] 2 (set [(0, 0), (0, 1)] - {(5, 5)})
          [(0, 0)] {(0, 0)} 0 [])
      = fst (find_reachable_areas_bfs state_perception (0, 0) 2 [(0, 0), (0, 1)] (5, 5))"
    by blast
  from a f3 trans [OF c [symmetric] f3] trans [OF o f3] show ?thesis
    by (intro conjI)
qed

text \<open>
  C2. For every start, goal, board size and body, with the obstacles the body's cells less
  the start and the goal: whenever \<open>a_star_search\<close> returns a path, it is a path of the
  4-connected in-bounds grid from the start (its first element) to the goal (its last), and
  no path between them is shorter, so its length never exceeds that of a shortest-path
  reference on the same obstacles; it returns a path whenever one exists, and \<open>None\<close> exactly
  when none does, which is when \<open>open_set\<close> runs empty before the goal is popped.
\<close>

theorem a_star_search_shortest:
  "(\<forall>p. a_star_search start goal sz body = Some p \<longrightarrow>
      path_between sz (set body - {goal} - {start}) start goal p
      \<and> (\<forall>p'. path_between sz (set body - {goal} - {start}) start goal p'
            \<longrightarrow> length p \<le> length p'))
   \<and> (a_star_search start goal sz body = None
        \<longleftrightarrow> \<not> (\<exists>p'. path_between sz (set body - {goal} - {start}) start goal p'))
   \<and> a_star_loop ds goal sz obstacles [] g_costs = None"
proof -
  let ?obs = "set body - {goal} - {start}"
  note inv = a_star_inv_init [of start goal sz ?obs]
  note four = all_four_Direction_values [of path_planning]
  have 1: "\<forall>p. a_star_search start goal sz body = Some p \<longrightarrow>
      path_between sz ?obs start goal p
      \<and> (\<forall>p'. path_between sz ?obs start goal p' \<longrightarrow> length p \<le> length p')"
    unfolding a_star_search_obstacles
    using a_star_loop_sound [OF four inv] by blast
  have 2: "(\<exists>p'. path_between sz ?obs start goal p') \<Longrightarrow> a_star_search start goal sz body \<noteq> None"
    unfolding a_star_search_obstacles
    using a_star_loop_complete [OF four inv] by blast
  have 3: "a_star_search start goal sz body = None
        \<longleftrightarrow> \<not> (\<exists>p'. path_between sz ?obs start goal p')"
  proof
    assume n: "a_star_search start goal sz body = None"
    with 2 show "\<not> (\<exists>p'. path_between sz ?obs start goal p')" by blast
  next
    assume n: "\<not> (\<exists>p'. path_between sz ?obs start goal p')"
    show "a_star_search start goal sz body = None"
    proof (cases "a_star_search start goal sz body")
      case None
      then show ?thesis .
    next
      case (Some p)
      with 1 n show ?thesis by blast
    qed
  qed
  from 1 3 a_star_loop_empty show ?thesis by blast
qed

theorem a_star_search_shortest_witness:
  "a_star_search (0, 1) (2, 1) 3 [(1, 1), (1, 2), (1, 3)]
     = Some [(0, 1), (0, 0), (1, 0), (2, 0), (2, 1)]
   \<and> path_between 3 (set [(1, 1), (1, 2), (1, 3)] - {(2, 1)} - {(0, 1)}) (0, 1) (2, 1)
        [(0, 1), (0, 0), (1, 0), (2, 0), (2, 1)]
   \<and> a_star_search (0, 0) (2, 0) 3 [(1, 0), (1, 1), (1, 2)] = None
   \<and> \<not> (\<exists>p'. path_between 3 (set [(1, 0), (1, 1), (1, 2)] - {(2, 0)} - {(0, 0)}) (0, 0) (2, 0) p')"
proof -
  have e: "a_star_search (0, 1) (2, 1) 3 [(1, 1), (1, 2), (1, 3)]
     = Some [(0, 1), (0, 0), (1, 0), (2, 0), (2, 1)]"
    by code_simp
  have n: "a_star_search (0, 0) (2, 0) 3 [(1, 0), (1, 1), (1, 2)] = None"
    by code_simp
  from a_star_search_shortest [of "(0, 1)" "(2, 1)" 3 "[(1, 1), (1, 2), (1, 3)]"] e
  have pb: "path_between 3 (set [(1, 1), (1, 2), (1, 3)] - {(2, 1)} - {(0, 1)}) (0, 1) (2, 1)
        [(0, 1), (0, 0), (1, 0), (2, 0), (2, 1)]"
    by blast
  from a_star_search_shortest [of "(0, 0)" "(2, 0)" 3 "[(1, 0), (1, 1), (1, 2)]"] n
  have np: "\<not> (\<exists>p'. path_between 3 (set [(1, 0), (1, 1), (1, 2)] - {(2, 0)} - {(0, 0)})
        (0, 0) (2, 0) p')"
    by blast
  from e pb n np show ?thesis by (intro conjI)
qed

text \<open>
  C10. The claim: on an invalid snapshot (empty body, out-of-bounds goal, non-positive board
  size) every core operation fails with an explicit InvalidInput condition. On the snapshot
  with board size 0, empty body and goal \<open>(5,5)\<close>, which is invalid in all three ways, every
  operation returns an ordinary result and none raises.
\<close>

theorem no_invalid_input_counterexample:
  "is_collision (0, 0) 0 [] = True
   \<and> find_reachable_areas_bfs state_perception (0, 0) 0 [] (5, 5) = (1, [(0, 0)])
   \<and> has_path_to_target_bfs state_perception (0, 0) (5, 5) 0 [] = False
   \<and> a_star_search (0, 0) (5, 5) 0 [] = None
   \<and> calculate_action_cost (0, 0) (snake_env, UP) (snake_env, UP) [] (5, 5) 0
        is_collision a_star_search is_future_isolated (find_reachable_areas_bfs state_perception)
      = Inr Infinity
   \<and> choose_best_action \<lparr>board_size = 0\<rparr> (0, 0) (snake_env, UP) [] (5, 5)
      = ([''WARNING: No safe actions found. Game likely over or trapped.''], Inr (snake_env, UP))"
  by (simp add: is_collision_no_board find_reachable_areas_bfs_no_board
      has_path_to_target_bfs_no_board a_star_search_no_board calculate_action_cost_no_board
      choose_best_action_no_board)

text \<open>
  C10, as amended. On a board of non-positive size, whatever the body and the goal (so also
  with an empty body or an out-of-bounds goal), no core operation fails with InvalidInput;
  each returns a value: \<open>is_collision\<close> is true of every cell, \<open>find_reachable_areas_bfs\<close>
  returns the start alone, \<open>has_path_to_target_bfs\<close> and \<open>a_star_search\<close> succeed exactly
  when start and target coincide, \<open>calculate_action_cost\<close> returns \<open>+infinity\<close> and
  \<open>choose_best_action\<close> returns the current direction. On any board, with a goal out of bounds
  and different from the start, \<open>a_star_search\<close> returns \<open>None\<close> and \<open>has_path_to_target_bfs\<close>
  returns false. On any board, with an empty body, \<open>is_collision\<close> is the bounds test alone.
\<close>

theorem no_snapshot_validation:
  "(sz \<le> 0 \<longrightarrow>
      is_collision pos sz body
    \<and> find_reachable_areas_bfs m start sz body food = (1, [start])
    \<and> has_path_to_target_bfs m start goal sz body = (start = goal)
    \<and> a_star_search start goal sz body = (if start = goal then Some [start] else None)
    \<and> calculate_action_cost head cur action body food sz
         is_collision a_star_search is_future_isolated (find_reachable_areas_bfs state_perception)
       = Inr Infinity
    \<and> choose_best_action \<lparr>board_size = sz\<rparr> head cur body food
       = ([''WARNING: No safe actions found. Game likely over or trapped.''], Inr cur))
   \<and> (goal \<notin> board sz \<and> start \<noteq> goal \<longrightarrow>
        a_star_search start goal sz body = None
      \<and> \<not> has_path_to_target_bfs m start goal sz body)
   \<and> (is_collision (x, y) sz [] \<longleftrightarrow> x < 0 \<or> sz \<le> x \<or> y < 0 \<or> sz \<le> y)"
proof -
  have D: "is_collision (x, y) sz [] \<longleftrightarrow> x < 0 \<or> sz \<le> x \<or> y < 0 \<or> sz \<le> y"
    by (auto simp: is_collision_def)
  from D is_collision_no_board [of sz pos body]
    calculate_action_cost_no_board [of sz head cur action body food a_star_search is_future_isolated
      "find_reachable_areas_bfs state_perception"]
    choose_best_action_no_board [of sz head cur body food]
    find_reachable_areas_bfs_no_board [of sz m start body food]
    has_path_to_target_bfs_no_board [of sz m start goal body]
    a_star_search_no_board [of sz start goal body]
    a_star_search_goal_outside [of goal sz start body]
    has_path_to_target_bfs_goal_outside [of goal sz start m body]
  show ?thesis by blast
qed

theorem no_snapshot_validation_witness:
  "(0 :: int) \<le> 0 \<and> (5, 5) \<notin> board 3 \<and> (0, 0) \<noteq> (5, 5 :: int)
   \<and> is_collision (0, 0) 0 []
   \<and> a_star_search (0, 0) (5, 5) 0 [] = None
   \<and> a_star_search (0, 0) (5, 5) 3 [(0, 0), (0, 1)] = None
   \<and> \<not> has_path_to_target_bfs state_perception (0, 0) (5, 5) 3 [(0, 0), (0, 1)]
   \<and> calculate_action_cost (0, 0) (snake_env, UP) (snake_env, UP) [] (5, 5) 0
        is_collision a_star_search is_future_isolated (find_reachable_areas_bfs state_perception)
      = Inr Infinity"
  using no_snapshot_validation [of 0 "(0, 0)" "[]" state_perception "(0, 0)" "(5, 5)" "(5, 5)"
      "(0, 0)" "(snake_env, UP)" "(snake_env, UP)" 0 0]
    no_snapshot_validation [of 3 "(0, 0)" "[(0, 0), (0, 1)]" state_perception "(0, 0)" "(5, 5)"
      "(5, 5)" "(0, 0)" "(snake_env, UP)" "(snake_env, UP)" 0 0]
  by (simp add: board_def)

end
